theory Spec2Isabelle
  imports Main
begin

section \<open>Python strings\<close>

text \<open>
  A Python \<^verbatim>\<open>str\<close> is a sequence of Unicode code points, so it is modelled as a list of
  integers, one per code point (what \<^verbatim>\<open>ord\<close> gives). \<open>ustr\<close> turns an ASCII literal
  into such a list; code points outside ASCII are written as numbers (\<open>0x300C\<close> and \<open>0x300D\<close> are the corner
  brackets of \<^verbatim>\<open>clean_channel_name\<close>, \<open>0x2022\<close> the bullet of the rank suffix).
\<close>

type_synonym pystr = "int list"

definition ustr :: "string \<Rightarrow> pystr" where
  "ustr s = map of_char s"

abbreviation newline :: int where "newline \<equiv> 0x0A"
abbreviation dquote :: int where "dquote \<equiv> 0x22"
abbreviation hash :: int where "hash \<equiv> 0x23"
abbreviation dollar :: int where "dollar \<equiv> 0x24"
abbreviation comma :: int where "comma \<equiv> 0x2C"

text \<open>
  \<^verbatim>\<open>str.isspace\<close> for one code point, which is also what \<^verbatim>\<open>\s\<close> matches in a \<^verbatim>\<open>str\<close>
  pattern and what \<^verbatim>\<open>str.strip()\<close> removes: the white space of the Unicode database.
\<close>

definition isspace :: "int \<Rightarrow> bool" where
  "isspace c =
     ((0x09 \<le> c \<and> c \<le> 0x0D) \<or> (0x1C \<le> c \<and> c \<le> 0x20) \<or> c = 0x85 \<or> c = 0xA0 \<or>
      c = 0x1680 \<or> (0x2000 \<le> c \<and> c \<le> 0x200A) \<or> c = 0x2028 \<or> c = 0x2029 \<or>
      c = 0x202F \<or> c = 0x205F \<or> c = 0x3000)"

text \<open>\<^verbatim>\<open>s.strip()\<close>\<close>

definition strip :: "pystr \<Rightarrow> pystr" where
  "strip s = rev (dropWhile isspace (rev (dropWhile isspace s)))"

text \<open>\<^verbatim>\<open>s.startswith(p)\<close>\<close>

definition startswith :: "pystr \<Rightarrow> pystr \<Rightarrow> bool" where
  "startswith s p = (take (length p) s = p)"

text \<open>\<^verbatim>\<open>s.endswith(p)\<close>\<close>

definition endswith :: "pystr \<Rightarrow> pystr \<Rightarrow> bool" where
  "endswith s p = startswith (rev s) (rev p)"

text \<open>\<^verbatim>\<open>p in s\<close> for two strings: \<open>p\<close> occurs in \<open>s\<close> as a substring.\<close>

fun contains :: "pystr \<Rightarrow> pystr \<Rightarrow> bool" where
  "contains p [] = (p = [])"
| "contains p (c # cs) = (startswith (c # cs) p \<or> contains p cs)"

text \<open>\<^verbatim>\<open>s.split(sep)\<close> for a separator of one character: never the empty list.\<close>

fun split_on :: "int \<Rightarrow> pystr \<Rightarrow> pystr list" where
  "split_on sep [] = [[]]"
| "split_on sep (c # cs) =
     (if c = sep then [] # split_on sep cs
      else (case split_on sep cs of [] \<Rightarrow> [[c]] | p # ps \<Rightarrow> (c # p) # ps))"

text \<open>\<^verbatim>\<open>s.split(sep)[0]\<close>, which is also \<^verbatim>\<open>s.split(sep, 1)[0]\<close>.\<close>

definition split0 :: "int \<Rightarrow> pystr \<Rightarrow> pystr" where
  "split0 sep s = (case split_on sep s of [] \<Rightarrow> [] | p # ps \<Rightarrow> p)"

text \<open>
  What the source takes from the interpreter and not from its own text: the decimal
  digits of Unicode (the code points \<^verbatim>\<open>\d\<close> matches in a \<^verbatim>\<open>str\<close> pattern, with the value
  \<^verbatim>\<open>int\<close> gives each), the full upper-case mapping of one code point, which \<^verbatim>\<open>str.upper\<close>
  applies to each character and which may give several, and the limit on the number of
  digits \<^verbatim>\<open>int\<close> converts (\<^verbatim>\<open>sys.get_int_max_str_digits()\<close>, 0 for none). They are a
  parameter of the model, so that what is proved holds for the tables of every
  interpreter.
\<close>

record interp =
  decimal_value :: "int \<Rightarrow> int option"
  upper_full :: "int \<Rightarrow> pystr"
  int_max_str_digits :: int

datatype error = ValueError

text \<open>
  What \<^verbatim>\<open>\d\<close> matches and \<^verbatim>\<open>\D\<close> does not: the code points with a decimal value, those
  \<^verbatim>\<open>str.isdecimal\<close> accepts.
\<close>

definition isdecimal :: "interp \<Rightarrow> int \<Rightarrow> bool" where
  "isdecimal py c = (decimal_value py c \<noteq> None)"

text \<open>
  \<^verbatim>\<open>int(ds)\<close> on a run of decimal digits: a \<^verbatim>\<open>ValueError\<close> when a limit is set and the run
  is longer than it (leading zeros counted), the value of the digits otherwise, unbounded
  as Python's integers are. CPython compares runs of more than 640 digits only and sets
  no limit below 640, which is the same test.
\<close>

definition py_int :: "interp \<Rightarrow> pystr \<Rightarrow> error + int" where
  "py_int py ds =
     (if 0 < int_max_str_digits py \<and> int_max_str_digits py < int (length ds) then Inl ValueError
      else Inr (foldl (\<lambda>n c. 10 * n + (case decimal_value py c of None \<Rightarrow> 0 | Some d \<Rightarrow> d)) 0 ds))"

text \<open>
  \<^verbatim>\<open>str(n)\<close>. The source applies it to an integer \<^verbatim>\<open>int\<close> has just converted, which has no
  more digits than the limit, and to the index of a URL in a list.
\<close>

function py_str :: "int \<Rightarrow> pystr" where
  "py_str n =
     (if n < 0 then 0x2D # py_str (- n)
      else if n < 10 then [0x30 + n]
      else py_str (n div 10) @ [0x30 + n mod 10])"
  by pat_completeness auto
termination
  by (relation "measure (\<lambda>n. if n < 0 then nat (- n) + 1 else nat n)") auto

declare py_str.simps [simp del]

text \<open>\<^verbatim>\<open>s.upper()\<close>\<close>

definition upper :: "interp \<Rightarrow> pystr \<Rightarrow> pystr" where
  "upper py s = concat (map (upper_full py) s)"

text \<open>
  One interpreter, for the closed instances of the theorems: the tables of Unicode on
  ASCII (the digits \<^verbatim>\<open>0\<close> to \<^verbatim>\<open>9\<close>, the letters \<^verbatim>\<open>a\<close> to \<^verbatim>\<open>z\<close>), no digit and no case
  elsewhere, and CPython's default limit.
\<close>

definition ascii_tables :: interp where
  "ascii_tables =
     \<lparr>decimal_value = (\<lambda>c. if 0x30 \<le> c \<and> c \<le> 0x39 then Some (c - 0x30) else None),
      upper_full = (\<lambda>c. [if 0x61 \<le> c \<and> c \<le> 0x7A then c - 0x20 else c]),
      int_max_str_digits = 4300\<rparr>"

text \<open>
  An interpreter whose tables are those of Unicode on ASCII, where the digits are \<^verbatim>\<open>0\<close> to
  \<^verbatim>\<open>9\<close> with their values and \<^verbatim>\<open>a\<close> to \<^verbatim>\<open>z\<close> are the only characters upper case changes,
  and whose limit is one CPython accepts (\<^verbatim>\<open>sys.set_int_max_str_digits\<close> takes 0 or at least
  640). Every CPython is such; nothing is said of the code points past ASCII. What the
  theorems state of a text in ASCII, they state for every such interpreter.
\<close>

definition ascii_interp :: "interp \<Rightarrow> bool" where
  "ascii_interp py =
     ((\<forall>c. 0 \<le> c \<and> c \<le> 0x7F \<longrightarrow>
         decimal_value py c = decimal_value ascii_tables c
         \<and> upper_full py c = upper_full ascii_tables c)
      \<and> (int_max_str_digits py = 0 \<or> 640 \<le> int_max_str_digits py))"

text \<open>
  A second interpreter for closed instances, with some of what Unicode has past ASCII:
  the full-width digits \<open>0xFF10\<close> to \<open>0xFF19\<close>, the letter \<open>0xE9\<close> whose upper case is
  \<open>0xC9\<close>, the letter \<open>0xDF\<close> whose upper case is the two letters \<^verbatim>\<open>SS\<close>, and the least limit
  CPython accepts.
\<close>

definition wide_tables :: interp where
  "wide_tables =
     \<lparr>decimal_value =
        (\<lambda>c. if 0xFF10 \<le> c \<and> c \<le> 0xFF19 then Some (c - 0xFF10) else decimal_value ascii_tables c),
      upper_full =
        (\<lambda>c. if c = 0xDF then [0x53, 0x53] else if c = 0xE9 then [0xC9]
             else upper_full ascii_tables c),
      int_max_str_digits = 640\<rparr>"

section \<open>Ordered dictionaries\<close>

text \<open>
  An \<^verbatim>\<open>OrderedDict\<close> is an association list in insertion order. Assigning to a key that is
  present replaces the value where it stands; assigning to a new key appends it.
\<close>

type_synonym ('k, 'v) odict = "('k \<times> 'v) list"

text \<open>\<^verbatim>\<open>k in d\<close>\<close>

definition od_contains :: "'k \<Rightarrow> ('k, 'v) odict \<Rightarrow> bool" where
  "od_contains k d = (k \<in> set (map fst d))"

text \<open>\<^verbatim>\<open>d[k] = v\<close>\<close>

fun od_set :: "'k \<Rightarrow> 'v \<Rightarrow> ('k, 'v) odict \<Rightarrow> ('k, 'v) odict" where
  "od_set k v [] = [(k, v)]"
| "od_set k v ((k', v') # d) = (if k' = k then (k, v) # d else (k', v') # od_set k v d)"

text \<open>
  \<^verbatim>\<open>d[k].extend(xs)\<close> and \<^verbatim>\<open>d[k].append(x)\<close>, for a key that is present: every call site
  of the source has tested or assigned the key before (see the last section), so the
  \<^verbatim>\<open>KeyError\<close> of a missing key is no branch of the model.
\<close>

definition od_extend :: "'k \<Rightarrow> 'v list \<Rightarrow> ('k, 'v list) odict \<Rightarrow> ('k, 'v list) odict" where
  "od_extend k xs d = map (\<lambda>(k', v). if k' = k then (k', v @ xs) else (k', v)) d"

definition od_append :: "'k \<Rightarrow> 'v \<Rightarrow> ('k, 'v list) odict \<Rightarrow> ('k, 'v list) odict" where
  "od_append k x d = od_extend k [x] d"

text \<open>\<^verbatim>\<open>d.update(other)\<close>\<close>

definition od_update :: "('k, 'v) odict \<Rightarrow> ('k, 'v) odict \<Rightarrow> ('k, 'v) odict" where
  "od_update d other = foldl (\<lambda>d (k, v). od_set k v d) d other"

section \<open>The name normalizer\<close>

text \<open>
  \<^verbatim>\<open>re.sub(r'(\D*)(\d+)', lambda m: m.group(1) + str(int(m.group(2))), s)\<close>: the first group
  is the run of non-digits at the scanning position, the second the run of digits after
  it; where no digit is left, nothing matches any more and the rest is copied. A
  \<^verbatim>\<open>ValueError\<close> of \<^verbatim>\<open>int\<close> ends the substitution.
\<close>

function re_sub_digits :: "interp \<Rightarrow> pystr \<Rightarrow> error + pystr" where
  "re_sub_digits py s =
     (if dropWhile (\<lambda>c. \<not> isdecimal py c) s = [] then Inr s
      else
        (case py_int py (takeWhile (isdecimal py) (dropWhile (\<lambda>c. \<not> isdecimal py c) s)) of
           Inl e \<Rightarrow> Inl e
         | Inr n \<Rightarrow>
             (case re_sub_digits py (dropWhile (isdecimal py) (dropWhile (\<lambda>c. \<not> isdecimal py c) s)) of
                Inl e \<Rightarrow> Inl e
              | Inr rest \<Rightarrow> Inr (takeWhile (\<lambda>c. \<not> isdecimal py c) s @ py_str n @ rest))))"
  by pat_completeness auto
termination
proof (relation "measure (\<lambda>(py, s). length s)")
  show "wf (measure (\<lambda>(py, s). length s))" by simp
next
  fix py :: interp and s :: pystr and n :: int
  let ?r = "dropWhile (\<lambda>c. \<not> isdecimal py c) s"
  assume ne: "?r \<noteq> []"
  then obtain x xs where r: "?r = x # xs" by (cases ?r) auto
  have "isdecimal py x" using hd_dropWhile [OF ne] r by simp
  then have "dropWhile (isdecimal py) ?r = dropWhile (isdecimal py) xs" using r by simp
  moreover have "length (dropWhile (isdecimal py) xs) \<le> length xs" by (rule length_dropWhile_le)
  moreover have "length ?r \<le> length s" by (rule length_dropWhile_le)
  ultimately have "length (dropWhile (isdecimal py) ?r) < length s" using r by simp
  then show "((py, dropWhile (isdecimal py) ?r), (py, s)) \<in> measure (\<lambda>(py, s). length s)" by simp
qed

declare re_sub_digits.simps [simp del]

definition clean_channel_name :: "interp \<Rightarrow> pystr \<Rightarrow> error + pystr" where
  "clean_channel_name py name =
     (let cleaned_name =
            filter (\<lambda>c. c \<noteq> dollar \<and> c \<noteq> 0x300C \<and> c \<noteq> 0x300D \<and> c \<noteq> 0x2D) name;
          cleaned_name = filter (\<lambda>c. \<not> isspace c) cleaned_name
      in case re_sub_digits py cleaned_name of
           Inl e \<Rightarrow> Inl e
         | Inr cleaned_name \<Rightarrow> Inr (upper py cleaned_name))"

text \<open>
  The guard both parsers put before the call:
  \<^verbatim>\<open>if channel_name and channel_name.startswith("CCTV"): channel_name = clean_channel_name(channel_name)\<close>
\<close>

definition clean_if_cctv :: "interp \<Rightarrow> pystr \<Rightarrow> error + pystr" where
  "clean_if_cctv py name =
     (if name \<noteq> [] \<and> startswith name (ustr ''CCTV'') then clean_channel_name py name
      else Inr name)"

text \<open>
  A \<^verbatim>\<open>for\<close> loop whose body may raise: the exception ends the loop, and the function
  with it.
\<close>

fun for_each :: "('s \<Rightarrow> 'a \<Rightarrow> error + 's) \<Rightarrow> 's \<Rightarrow> 'a list \<Rightarrow> error + 's" where
  "for_each body st [] = Inr st"
| "for_each body st (x # xs) =
     (case body st x of Inl e \<Rightarrow> Inl e | Inr st' \<Rightarrow> for_each body st' xs)"

section \<open>Parsing the template\<close>

text \<open>
  \<^verbatim>\<open>parse_template\<close> reads the template file line by line; the model takes the lines the
  file yields. The loop's state is the dictionary built so far and \<^verbatim>\<open>current_category\<close>
  (\<open>None\<close> as in the source; an empty category is as false as \<open>None\<close> in the \<^verbatim>\<open>elif\<close>).
\<close>

definition parse_template_step ::
  "(pystr, pystr list) odict \<times> pystr option \<Rightarrow> pystr \<Rightarrow> (pystr, pystr list) odict \<times> pystr option"
where
  "parse_template_step st raw =
     (let line = strip raw in
      if line \<noteq> [] \<and> \<not> startswith line (ustr ''#'') then
        if contains (ustr ''#genre#'') line then
          (let category = strip (split0 comma line)
           in (od_set category [] (fst st), Some category))
        else
          (case snd st of
             None \<Rightarrow> st
           | Some category \<Rightarrow>
               if category \<noteq> [] then (od_append category (strip (split0 comma line)) (fst st), snd st)
               else st)
      else st)"

definition parse_template :: "pystr list \<Rightarrow> (pystr, pystr list) odict" where
  "parse_template file_lines = fst (foldl parse_template_step ([], None) file_lines)"

section \<open>Parsing a source\<close>

text \<open>
  The locals of the two parsers that live across the iterations of their loops:
  \<^verbatim>\<open>channels\<close>, \<^verbatim>\<open>current_category\<close> and \<^verbatim>\<open>channel_name\<close> (unbound until the first match).
\<close>

record parse_state =
  channels :: "(pystr, (pystr \<times> pystr) list) odict"
  current_category :: "pystr option"
  channel_name :: "pystr option"

definition init_state :: parse_state where
  "init_state = \<lparr>channels = [], current_category = None, channel_name = None\<rparr>"

subsection \<open>Extended format\<close>

text \<open>
  \<^verbatim>\<open>(.*?)",(.*)\<close> matched at the head of a string: the first group grows by one character
  that is not a newline until \<^verbatim>\<open>",\<close> follows; the second group is the rest of the line.
\<close>

fun match_title_groups :: "pystr \<Rightarrow> (pystr \<times> pystr) option" where
  "match_title_groups [] = None"
| "match_title_groups (c # cs) =
     (if startswith (c # cs) [dquote, comma] then Some ([], takeWhile (\<lambda>x. x \<noteq> newline) (drop 1 cs))
      else if c = newline then None
      else (case match_title_groups cs of None \<Rightarrow> None | Some (g1, g2) \<Rightarrow> Some (c # g1, g2)))"

definition group_title :: pystr where
  "group_title = ustr ''group-title='' @ [dquote]"

text \<open>
  \<^verbatim>\<open>re.search(r'group-title="(.*?)",(.*)', line)\<close>: the leftmost position where the pattern
  matches, with its two groups.
\<close>

fun re_search_group_title :: "pystr \<Rightarrow> (pystr \<times> pystr) option" where
  "re_search_group_title [] = None"
| "re_search_group_title (c # cs) =
     (if startswith (c # cs) group_title then
        (case match_title_groups (drop (length group_title) (c # cs)) of
           Some g \<Rightarrow> Some g
         | None \<Rightarrow> re_search_group_title cs)
      else re_search_group_title cs)"

definition parse_m3u_step :: "interp \<Rightarrow> parse_state \<Rightarrow> pystr \<Rightarrow> error + parse_state" where
  "parse_m3u_step py st raw =
     (let line = strip raw in
      if startswith line (ustr ''#EXTINF'') then
        (case re_search_group_title line of
           None \<Rightarrow> Inr st
         | Some (g1, g2) \<Rightarrow>
             (let category = strip g1 in
              case clean_if_cctv py (strip g2) of
                Inl e \<Rightarrow> Inl e
              | Inr name \<Rightarrow>
                  Inr (st\<lparr>channels :=
                            (if \<not> od_contains category (channels st)
                             then od_set category [] (channels st) else channels st),
                          current_category := Some category,
                          channel_name := Some name\<rparr>)))
      else if line \<noteq> [] \<and> \<not> startswith line (ustr ''#'') then
        (let channel_url = strip line in
         case (current_category st, channel_name st) of
           (Some category, Some name) \<Rightarrow>
             if category \<noteq> [] \<and> name \<noteq> []
             then Inr (st\<lparr>channels := od_append category (name, channel_url) (channels st)\<rparr>)
             else Inr st
         | _ \<Rightarrow> Inr st)
      else Inr st)"

definition parse_m3u_lines ::
  "interp \<Rightarrow> pystr list \<Rightarrow> error + (pystr, (pystr \<times> pystr) list) odict"
where
  "parse_m3u_lines py lines =
     (case for_each (parse_m3u_step py) init_state lines of
        Inl e \<Rightarrow> Inl e
      | Inr st \<Rightarrow> Inr (channels st))"

subsection \<open>Delimited format\<close>

text \<open>
  \<^verbatim>\<open>re.match(r"^(.*?),(.*?)$", line)\<close>: \<^verbatim>\<open>.\<close> matches no newline and \<^verbatim>\<open>$\<close> matches at the end
  or before one last newline, so the pattern matches when the line, without one last
  newline, has a comma and no newline; the groups are the text before the first comma
  and the text after it.
\<close>

definition re_match_txt :: "pystr \<Rightarrow> (pystr \<times> pystr) option" where
  "re_match_txt line =
     (let body = (if line \<noteq> [] \<and> last line = newline then butlast line else line) in
      if comma \<in> set body \<and> newline \<notin> set body
      then Some (takeWhile (\<lambda>c. c \<noteq> comma) body, drop 1 (dropWhile (\<lambda>c. c \<noteq> comma) body))
      else None)"

definition parse_txt_step :: "interp \<Rightarrow> parse_state \<Rightarrow> pystr \<Rightarrow> error + parse_state" where
  "parse_txt_step py st raw =
     (let line = strip raw in
      if contains (ustr ''#genre#'') line then
        (let category = strip (split0 comma line)
         in Inr (st\<lparr>channels := od_set category [] (channels st),
                    current_category := Some category\<rparr>))
      else
        (case current_category st of
           None \<Rightarrow> Inr st
         | Some category \<Rightarrow>
             if category = [] then Inr st
             else
               (case re_match_txt line of
                  Some (g1, g2) \<Rightarrow>
                    (case clean_if_cctv py (strip g1) of
                       Inl e \<Rightarrow> Inl e
                     | Inr name \<Rightarrow>
                         (let channel_urls = split_on hash (strip g2)
                          in Inr (st\<lparr>channels :=
                                       foldl (\<lambda>d channel_url.
                                                od_append category (name, strip channel_url) d)
                                         (channels st) channel_urls,
                                     channel_name := Some name\<rparr>)))
                | None \<Rightarrow>
                    if line \<noteq> []
                    then Inr (st\<lparr>channels := od_append category (line, []) (channels st)\<rparr>)
                    else Inr st)))"

definition parse_txt_lines ::
  "interp \<Rightarrow> pystr list \<Rightarrow> error + (pystr, (pystr \<times> pystr) list) odict"
where
  "parse_txt_lines py lines =
     (case for_each (parse_txt_step py) init_state lines of
        Inl e \<Rightarrow> Inl e
      | Inr st \<Rightarrow> Inr (channels st))"

subsection \<open>Fetching and format detection\<close>

text \<open>
  The transport is the parameter \<open>fetch\<close>: the decoded body of the response, or \<open>None\<close>
  where \<^verbatim>\<open>requests\<close> raises, which the source catches and logs. A \<^verbatim>\<open>ValueError\<close> of a
  parser is no \<^verbatim>\<open>RequestException\<close> and leaves the function. \<open>is_m3u\<close> is the local of
  that name.
\<close>

definition is_m3u :: "pystr list \<Rightarrow> bool" where
  "is_m3u lines = list_ex (\<lambda>line. startswith line (ustr ''#EXTINF'')) (take 15 lines)"

definition fetch_channels ::
  "interp \<Rightarrow> (pystr \<Rightarrow> pystr option) \<Rightarrow> pystr
     \<Rightarrow> error + (pystr, (pystr \<times> pystr) list) odict"
where
  "fetch_channels py fetch url =
     (case fetch url of
        None \<Rightarrow> Inr []
      | Some text \<Rightarrow>
          (let lines = split_on newline text in
           if is_m3u lines then
             (case parse_m3u_lines py lines of
                Inl e \<Rightarrow> Inl e
              | Inr parsed \<Rightarrow> Inr (od_update [] parsed))
           else
             (case parse_txt_lines py lines of
                Inl e \<Rightarrow> Inl e
              | Inr parsed \<Rightarrow> Inr (od_update [] parsed))))"

section \<open>Merging and matching\<close>

definition merge_channels ::
  "(pystr, (pystr \<times> pystr) list) odict \<Rightarrow> (pystr, (pystr \<times> pystr) list) odict
     \<Rightarrow> (pystr, (pystr \<times> pystr) list) odict"
where
  "merge_channels target source =
     foldl (\<lambda>target (category, channel_list).
              if od_contains category target then od_extend category channel_list target
              else od_set category channel_list target)
       target source"

text \<open>
  \<^verbatim>\<open>matched_channels[category].setdefault(channel_name, []).append(online_channel_url)\<close>
\<close>

definition setdefault_append ::
  "pystr \<Rightarrow> pystr \<Rightarrow> pystr \<Rightarrow> (pystr, (pystr, pystr list) odict) odict
     \<Rightarrow> (pystr, (pystr, pystr list) odict) odict"
where
  "setdefault_append category name url matched =
     map (\<lambda>(k, inner).
            if k = category
            then (k, if od_contains name inner then od_append name url inner
                     else od_set name [url] inner)
            else (k, inner))
       matched"

definition match_channels ::
  "(pystr, pystr list) odict \<Rightarrow> (pystr, (pystr \<times> pystr) list) odict
     \<Rightarrow> (pystr, (pystr, pystr list) odict) odict"
where
  "match_channels template_channels all_channels =
     foldl (\<lambda>matched (category, channel_list).
              foldl (\<lambda>matched name.
                       foldl (\<lambda>matched (online_category, online_channel_list).
                                foldl (\<lambda>matched (online_channel_name, online_channel_url).
                                         if name = online_channel_name
                                         then setdefault_append category name online_channel_url matched
                                         else matched)
                                  matched online_channel_list)
                         matched all_channels)
                (od_set category [] matched) channel_list)
       [] template_channels"

section \<open>Ranking and writing\<close>

text \<open>
  The module \<^verbatim>\<open>config\<close> is imported by the source and is not part of it: its four
  settings are the parameter \<open>cfg\<close>.
\<close>

record config =
  source_urls :: "pystr list"
  epg_urls :: "pystr list"
  url_blacklist :: "pystr list"
  ip_version_priority :: pystr

definition ishex :: "int \<Rightarrow> bool" where
  "ishex c = ((0x30 \<le> c \<and> c \<le> 0x39) \<or> (0x61 \<le> c \<and> c \<le> 0x66) \<or> (0x41 \<le> c \<and> c \<le> 0x46))"

text \<open>\<^verbatim>\<open>re.match(r'^http:\/\/\[[0-9a-fA-F:]+\]', url) is not None\<close>\<close>

definition is_ipv6 :: "pystr \<Rightarrow> bool" where
  "is_ipv6 url =
     (startswith url (ustr ''http://['') \<and>
      takeWhile (\<lambda>c. ishex c \<or> c = 0x3A) (drop 8 url) \<noteq> [] \<and>
      startswith (dropWhile (\<lambda>c. ishex c \<or> c = 0x3A) (drop 8 url)) (ustr '']''))"

text \<open>
  \<^verbatim>\<open>sorted\<close> is stable, as \<open>sort_key\<close> is; the key is a truth value, \<open>False\<close> first. The
  function returns the filtered list and the set \<^verbatim>\<open>written_urls\<close> as the call leaves it.
\<close>

definition sort_and_filter_urls :: "config \<Rightarrow> pystr list \<Rightarrow> pystr set \<Rightarrow> pystr list \<times> pystr set" where
  "sort_and_filter_urls cfg urls written =
     (let filtered_urls =
            filter (\<lambda>url. url \<noteq> [] \<and> url \<notin> written \<and>
                          \<not> list_ex (\<lambda>blacklist. contains blacklist url) (url_blacklist cfg))
              (sort_key (\<lambda>u. if ip_version_priority cfg = ustr ''ipv6'' then \<not> is_ipv6 u else is_ipv6 u)
                 urls)
      in (filtered_urls, written \<union> set filtered_urls))"

definition lr_ipv6 :: pystr where
  "lr_ipv6 = ustr ''$LR'' @ [0x2022] @ ustr ''IPV6''"

definition lr_ipv4 :: pystr where
  "lr_ipv4 = ustr ''$LR'' @ [0x2022] @ ustr ''IPV4''"

text \<open>
  The line tag of the suffix: the bracket \<open>0x300E\<close>, the two characters \<open>0x7EBF\<close> and
  \<open>0x8DEF\<close> (``line''), the index, the bracket \<open>0x300F\<close>.
\<close>

definition line_tag :: "int \<Rightarrow> pystr" where
  "line_tag index = [0x300E, 0x7EBF, 0x8DEF] @ py_str index @ [0x300F]"

definition add_url_suffix :: "pystr \<Rightarrow> int \<Rightarrow> int \<Rightarrow> pystr" where
  "add_url_suffix url index total_urls =
     (let suffix =
            (if is_ipv6 url then (if total_urls = 1 then lr_ipv6 else lr_ipv6 @ line_tag index)
             else (if total_urls = 1 then lr_ipv4 else lr_ipv4 @ line_tag index));
          base_url = (if dollar \<in> set url then split0 dollar url else url)
      in base_url @ suffix)"

text \<open>
  The writer's state: the set \<^verbatim>\<open>written_urls\<close> and the two open files, each as the list of
  the strings written to it so far, one per call of \<^verbatim>\<open>write\<close>. A file's content is their
  concatenation.
\<close>

record writer_state =
  written_urls :: "pystr set"
  f_m3u :: "pystr list"
  f_txt :: "pystr list"

definition file_content :: "pystr list \<Rightarrow> pystr" where
  "file_content writes = concat writes"

definition write_to_files :: "writer_state \<Rightarrow> pystr \<Rightarrow> pystr \<Rightarrow> int \<Rightarrow> pystr \<Rightarrow> writer_state" where
  "write_to_files st category name index new_url =
     (let logo_url = ustr ''https://gcore.jsdelivr.net/gh/yuanzl77/TVlogo@master/png/'' @ name @ ustr ''.png''
      in st\<lparr>f_m3u := f_m3u st @
                 [ustr ''#EXTINF:-1 tvg-id='' @ [dquote] @ py_str index @ [dquote]
                    @ ustr '' tvg-name='' @ [dquote] @ name @ [dquote]
                    @ ustr '' tvg-logo='' @ [dquote] @ logo_url @ [dquote]
                    @ ustr '' group-title='' @ [dquote] @ category @ [dquote] @ ustr '','' @ name
                    @ [newline],
                  new_url @ [newline]],
            f_txt := f_txt st @ [name @ ustr '','' @ new_url @ [newline]]\<rparr>)"

text \<open>\<^verbatim>\<open>enumerate(xs, start=1)\<close>\<close>

definition enumerate1 :: "'a list \<Rightarrow> (int \<times> 'a) list" where
  "enumerate1 xs = zip [1 .. int (length xs)] xs"

text \<open>The body of the loop over \<^verbatim>\<open>channel_list\<close>, for one channel name of the template.\<close>

definition write_channel ::
  "config \<Rightarrow> pystr \<Rightarrow> (pystr, pystr list) odict \<Rightarrow> writer_state \<Rightarrow> pystr \<Rightarrow> writer_state"
where
  "write_channel cfg category matched_category st name =
     (case map_of matched_category name of
        None \<Rightarrow> st
      | Some urls \<Rightarrow>
          (case sort_and_filter_urls cfg urls (written_urls st) of
             (sorted_urls, written) \<Rightarrow>
               foldl (\<lambda>st (index, url).
                        write_to_files st category name index
                          (add_url_suffix url index (int (length sorted_urls))))
                 (st\<lparr>written_urls := written\<rparr>) (enumerate1 sorted_urls)))"

text \<open>The body of the loop over the template, for one category and its channel list.\<close>

definition write_category ::
  "config \<Rightarrow> (pystr, (pystr, pystr list) odict) odict \<Rightarrow> writer_state \<Rightarrow> pystr \<times> pystr list
     \<Rightarrow> writer_state"
where
  "write_category cfg matched st entry =
     (case entry of
        (category, channel_list) \<Rightarrow>
          (let st = st\<lparr>f_txt := f_txt st @ [category @ ustr '',#genre#'' @ [newline]]\<rparr> in
           case map_of matched category of
             None \<Rightarrow> st
           | Some matched_category \<Rightarrow> foldl (write_channel cfg category matched_category) st channel_list))"

text \<open>\<^verbatim>\<open>sep.join(xs)\<close>\<close>

fun join :: "pystr \<Rightarrow> pystr list \<Rightarrow> pystr" where
  "join sep [] = []"
| "join sep [x] = x"
| "join sep (x # y # ys) = x @ sep @ join sep (y # ys)"

text \<open>
  The wall clock is the parameter \<open>now\<close> (year, month, day), which the source reads with
  \<^verbatim>\<open>datetime.now()\<close> and formats into \<^verbatim>\<open>current_date\<close>.
\<close>

definition zfill :: "nat \<Rightarrow> pystr \<Rightarrow> pystr" where
  "zfill n s = replicate (n - length s) 0x30 @ s"

definition strftime_ymd :: "int \<times> int \<times> int \<Rightarrow> pystr" where
  "strftime_ymd now =
     (case now of
        (y, m, d) \<Rightarrow> zfill 4 (py_str y) @ ustr ''-'' @ zfill 2 (py_str m) @ ustr ''-'' @ zfill 2 (py_str d))"

definition updateChannelUrlsM3U ::
  "config \<Rightarrow> int \<times> int \<times> int \<Rightarrow> (pystr, (pystr, pystr list) odict) odict
     \<Rightarrow> (pystr, pystr list) odict \<Rightarrow> writer_state"
where
  "updateChannelUrlsM3U cfg now matched template_channels =
     (let current_date = strftime_ymd now;
          st = \<lparr>written_urls = {},
                f_m3u = [ustr ''#EXTM3U x-tvg-url=''
                           @ join (ustr '','') (map (\<lambda>epg_url. [dquote] @ epg_url @ [dquote]) (epg_urls cfg))
                           @ [newline]],
                f_txt = []\<rparr>;
          st = foldl (write_category cfg matched) st template_channels
      in st\<lparr>f_txt := f_txt st @ [[newline]]\<rparr>)"

section \<open>The pipeline\<close>

definition filter_source_urls ::
  "interp \<Rightarrow> config \<Rightarrow> (pystr \<Rightarrow> pystr option) \<Rightarrow> pystr list
     \<Rightarrow> error + (pystr, (pystr, pystr list) odict) odict \<times> (pystr, pystr list) odict"
where
  "filter_source_urls py cfg fetch template_file =
     (let template_channels = parse_template template_file in
      case for_each
             (\<lambda>all_channels url.
                case fetch_channels py fetch url of
                  Inl e \<Rightarrow> Inl e
                | Inr fetched_channels \<Rightarrow> Inr (merge_channels all_channels fetched_channels))
             [] (source_urls cfg) of
        Inl e \<Rightarrow> Inl e
      | Inr all_channels \<Rightarrow> Inr (match_channels template_channels all_channels, template_channels))"

text \<open>
  The main program: the contents of \<^verbatim>\<open>live.m3u\<close> and of \<^verbatim>\<open>live.txt\<close> after one run, from the
  interpreter's tables, the settings, the transport, the clock and the lines of the
  template file; or the exception that ends the run before either file is opened.
\<close>

definition main ::
  "interp \<Rightarrow> config \<Rightarrow> (pystr \<Rightarrow> pystr option) \<Rightarrow> int \<times> int \<times> int \<Rightarrow> pystr list
     \<Rightarrow> error + pystr \<times> pystr"
where
  "main py cfg fetch now template_file =
     (case filter_source_urls py cfg fetch template_file of
        Inl e \<Rightarrow> Inl e
      | Inr (matched, template_channels) \<Rightarrow>
          (let st = updateChannelUrlsM3U cfg now matched template_channels
           in Inr (file_content (f_m3u st), file_content (f_txt st))))"

section \<open>Well-formed parser states\<close>

text \<open>
  What both parsers keep true of their locals: the keys of \<^verbatim>\<open>channels\<close> are distinct, as those
  of a dictionary are, and \<^verbatim>\<open>current_category\<close>, once set, is one of them.
\<close>

definition state_ok :: "parse_state \<Rightarrow> bool" where
  "state_ok st =
     (distinct (map fst (channels st)) \<and>
      (case current_category st of None \<Rightarrow> True | Some c \<Rightarrow> c \<in> set (map fst (channels st))))"

section \<open>Strings and dictionaries: basic facts\<close>

lemma split_on_not_Nil: "split_on sep s \<noteq> []"
  by (induction s) (auto split: list.splits)

lemma split0_takeWhile: "split0 sep s = takeWhile (\<lambda>c. c \<noteq> sep) s"
  by (induction s) (auto simp: split0_def split: list.splits)

lemma split_on_no_sep: "l \<in> set (split_on sep s) \<Longrightarrow> sep \<notin> set l"
  by (induction s arbitrary: l) (auto split: if_splits list.splits)

lemma od_extend_Nil: "od_extend k [] d = d"
  by (induction d) (auto simp: od_extend_def)

lemma od_extend_twice: "od_extend k ys (od_extend k xs d) = od_extend k (xs @ ys) d"
  by (induction d) (auto simp: od_extend_def)

lemma foldl_od_append:
  "foldl (\<lambda>d x. od_append k (f x) d) d xs = od_extend k (map f xs) d"
proof (induction xs arbitrary: d)
  case Nil
  show ?case by (simp add: od_extend_Nil)
next
  case (Cons x xs)
  have "foldl (\<lambda>d x. od_append k (f x) d) (od_append k (f x) d) xs
          = od_extend k (map f xs) (od_append k (f x) d)"
    by (rule Cons.IH)
  then show ?case by (simp add: od_append_def od_extend_twice)
qed

lemma map_of_od_extend:
  "map_of d k = Some v \<Longrightarrow> map_of (od_extend k xs d) k = Some (v @ xs)"
  by (induction d) (auto simp: od_extend_def split: if_splits)

lemma map_of_od_extend_other:
  "k' \<noteq> k \<Longrightarrow> map_of (od_extend k xs d) k' = map_of d k'"
  by (induction d) (auto simp: od_extend_def split: if_splits)

lemma keys_od_extend: "map fst (od_extend k xs d) = map fst d"
  by (induction d) (auto simp: od_extend_def)

lemma takeWhile_until: "x \<notin> set n \<Longrightarrow> takeWhile (\<lambda>c. c \<noteq> x) (n @ x # r) = n"
  by (induction n) auto

lemma dropWhile_until: "x \<notin> set n \<Longrightarrow> dropWhile (\<lambda>c. c \<noteq> x) (n @ x # r) = x # r"
  by (induction n) auto

lemma re_match_txt_comma:
  assumes "line = n @ [comma] @ r" "comma \<notin> set n" "newline \<notin> set line"
  shows "re_match_txt line = Some (n, r)"
proof -
  have ne: "line \<noteq> []" using assms(1) by simp
  have "last line \<in> set line" using ne by simp
  then have l: "last line \<noteq> newline" using assms(3) by metis
  have t: "takeWhile (\<lambda>c. c \<noteq> comma) line = n"
    using assms(1,2) by (simp add: takeWhile_until)
  have d: "dropWhile (\<lambda>c. c \<noteq> comma) line = comma # r"
    using assms(1,2) by (simp add: dropWhile_until)
  have c: "comma \<in> set line" using assms(1) by simp
  show ?thesis unfolding re_match_txt_def Let_def using ne l t d c assms(3) by simp
qed

lemma re_match_txt_no_comma: "comma \<notin> set line \<Longrightarrow> re_match_txt line = None"
  by (auto simp: re_match_txt_def Let_def dest: in_set_butlastD)

lemma strip_ends:
  assumes "strip s \<noteq> []"
  shows "\<not> isspace (hd (strip s))" and "\<not> isspace (last (strip s))"
proof -
  let ?t = "dropWhile isspace s"
  let ?d = "dropWhile isspace (rev ?t)"
  have u: "strip s = rev ?d" by (simp add: strip_def)
  have d: "?d \<noteq> []" using assms u by simp
  have "\<not> isspace (hd ?d)" using d by (rule hd_dropWhile)
  then show "\<not> isspace (last (strip s))" using d u by (simp add: last_rev)
  have "rev (takeWhile isspace (rev ?t) @ ?d) = ?t"
    by (simp only: takeWhile_dropWhile_id rev_rev_ident)
  then have t: "?t = strip s @ rev (takeWhile isspace (rev ?t))"
    by (simp only: rev_append u)
  then have "hd ?t = hd (strip s)" using assms by (metis hd_append2)
  moreover have "?t \<noteq> []" using assms by (subst t) (simp only: append_is_Nil_conv, simp)
  then have "\<not> isspace (hd ?t)" by (rule hd_dropWhile)
  ultimately show "\<not> isspace (hd (strip s))" by simp
qed

lemma strip_fixed:
  assumes "xs = [] \<or> (\<not> isspace (hd xs) \<and> \<not> isspace (last xs))"
  shows "strip xs = xs"
proof (cases xs)
  case Nil
  then show ?thesis by (simp add: strip_def)
next
  case (Cons x ys)
  then have h: "\<not> isspace x" and l: "\<not> isspace (last xs)" using assms by auto
  have 1: "dropWhile isspace xs = xs" using Cons h by simp
  obtain y zs where r: "rev xs = y # zs" using Cons by (cases "rev xs") auto
  have "hd (rev xs) = last xs" using Cons by (simp add: hd_rev)
  then have "\<not> isspace y" using l r by simp
  then have 2: "dropWhile isspace (rev xs) = rev xs" using r by simp
  show ?thesis by (simp add: strip_def 1 2)
qed

lemma strip_idem: "strip (strip s) = strip s"
  using strip_ends [of s] by (intro strip_fixed) blast

lemma startswith_append: "startswith (p @ s) p"
  by (simp add: startswith_def)

lemma startswith_Nil: "startswith [] p = (p = [])"
  by (auto simp: startswith_def)

lemma match_title_groups_lazy:
  assumes "newline \<notin> set g" "\<not> contains [dquote, comma] g"
  shows "match_title_groups (g @ dquote # comma # rest) = Some (g, takeWhile (\<lambda>x. x \<noteq> newline) rest)"
  using assms
proof (induction g)
  case Nil
  show ?case by (simp add: startswith_def)
next
  case (Cons c g)
  have nl: "c \<noteq> newline" and nl': "newline \<notin> set g" using Cons.prems(1) by auto
  have ns: "\<not> startswith (c # g) [dquote, comma]" and nc: "\<not> contains [dquote, comma] g"
    using Cons.prems(2) by auto
  have "\<not> startswith (c # g @ dquote # comma # rest) [dquote, comma]"
    using ns by (cases g) (auto simp: startswith_def)
  then show ?case using nl Cons.IH [OF nl' nc] by simp
qed

lemma re_search_group_title_unfold:
  "s \<noteq> [] \<Longrightarrow> re_search_group_title s =
     (if startswith s group_title then
        (case match_title_groups (drop (length group_title) s) of
           Some g \<Rightarrow> Some g
         | None \<Rightarrow> re_search_group_title (tl s))
      else re_search_group_title (tl s))"
  by (cases s) (auto split: option.splits)

lemma group_title_not_Nil: "group_title \<noteq> []"
  by (simp add: group_title_def)

lemma re_search_group_title_first:
  assumes "\<not> contains group_title (pre @ butlast group_title)" "match_title_groups rest = Some r"
  shows "re_search_group_title (pre @ group_title @ rest) = Some r"
  using assms(1)
proof (induction pre)
  case Nil
  have "re_search_group_title (group_title @ rest) = Some r"
    using group_title_not_Nil assms(2)
    by (subst re_search_group_title_unfold) (auto simp: startswith_append)
  then show ?case by simp
next
  case (Cons c pre)
  have ns: "\<not> startswith (c # pre @ butlast group_title) group_title"
    and nc: "\<not> contains group_title (pre @ butlast group_title)"
    using Cons.prems by auto
  have split: "c # pre @ group_title @ rest = (c # pre @ butlast group_title) @ last group_title # rest"
    using group_title_not_Nil by (simp add: append_butlast_last_id [symmetric] del: append_butlast_last_id)
  have "length group_title \<le> length (c # pre @ butlast group_title)" by simp
  then have "take (length group_title) (c # pre @ group_title @ rest)
               = take (length group_title) (c # pre @ butlast group_title)"
    by (subst split) (simp del: append_Cons)
  then have "\<not> startswith (c # pre @ group_title @ rest) group_title"
    using ns by (simp add: startswith_def)
  then show ?case using Cons.IH [OF nc] by simp
qed

lemma od_set_new: "k \<notin> set (map fst d) \<Longrightarrow> od_set k v d = d @ [(k, v)]"
  by (induction d) auto

lemma parse_m3u_step_url:
  assumes "current_category st = Some category" "category \<noteq> []"
      "channel_name st = Some name" "name \<noteq> []"
      "strip raw \<noteq> []" "\<not> startswith (strip raw) (ustr ''#'')"
  shows "parse_m3u_step py st raw
           = Inr (st\<lparr>channels := od_append category (name, strip raw) (channels st)\<rparr>)"
proof -
  have "\<not> startswith (strip raw) (ustr ''#EXTINF'')"
    using assms(6) by (cases "strip raw") (auto simp: startswith_def ustr_def)
  then show ?thesis
    unfolding parse_m3u_step_def Let_def using assms by (simp add: strip_idem)
qed

lemma startswith_cctv_nonempty: "startswith name (ustr ''CCTV'') \<Longrightarrow> name \<noteq> []"
  by (auto simp: startswith_def ustr_def)

lemma clean_if_cctv_eq:
  "clean_if_cctv py name
     = (if startswith name (ustr ''CCTV'') then clean_channel_name py name else Inr name)"
  using startswith_cctv_nonempty [of name] by (auto simp: clean_if_cctv_def)

section \<open>The substitution of digit runs\<close>

text \<open>
  How \<^verbatim>\<open>re_sub_digits\<close> goes through a text, run by run, and that two interpreters which
  agree on the digits of a text, and whose limits the text does not reach, substitute
  alike.
\<close>

lemma takeWhile_run: "\<forall>c \<in> set xs. P c \<Longrightarrow> ys = [] \<or> \<not> P (hd ys) \<Longrightarrow> takeWhile P (xs @ ys) = xs"
  by (induction xs) (auto simp: takeWhile_eq_Nil_iff)

lemma dropWhile_run: "\<forall>c \<in> set xs. P c \<Longrightarrow> ys = [] \<or> \<not> P (hd ys) \<Longrightarrow> dropWhile P (xs @ ys) = ys"
  by (induction xs) (auto simp: dropWhile_eq_self_iff)

lemma re_sub_digits_no_digit:
  assumes "\<forall>c \<in> set s. \<not> isdecimal py c"
  shows "re_sub_digits py s = Inr s"
proof -
  have "dropWhile (\<lambda>c. \<not> isdecimal py c) s = []" using assms by simp
  then show ?thesis by (subst re_sub_digits.simps) simp
qed

lemma re_sub_digits_run:
  assumes ns: "\<forall>c \<in> set ns. \<not> isdecimal py c"
    and ds: "ds \<noteq> []" "\<forall>c \<in> set ds. isdecimal py c"
    and rest: "rest = [] \<or> \<not> isdecimal py (hd rest)"
  shows "re_sub_digits py (ns @ ds @ rest)
           = (case py_int py ds of
                Inl e \<Rightarrow> Inl e
              | Inr n \<Rightarrow>
                  (case re_sub_digits py rest of
                     Inl e \<Rightarrow> Inl e
                   | Inr t \<Rightarrow> Inr (ns @ py_str n @ t)))"
proof -
  have h: "\<not> \<not> isdecimal py (hd (ds @ rest))" using ds by (cases ds) auto
  have 1: "dropWhile (\<lambda>c. \<not> isdecimal py c) (ns @ ds @ rest) = ds @ rest"
    using ns h ds(1) by (intro dropWhile_run) auto
  have 2: "takeWhile (\<lambda>c. \<not> isdecimal py c) (ns @ ds @ rest) = ns"
    using ns h ds(1) by (intro takeWhile_run) auto
  have 3: "takeWhile (isdecimal py) (ds @ rest) = ds"
    using ds(2) rest by (intro takeWhile_run) auto
  have 4: "dropWhile (isdecimal py) (ds @ rest) = rest"
    using ds(2) rest by (intro dropWhile_run) auto
  show ?thesis
    using ds(1) by (subst re_sub_digits.simps) (simp add: 1 2 3 4 split: sum.splits)
qed

lemma py_int_value:
  assumes "\<forall>c \<in> set ds. isdecimal py c"
  shows "py_int py ds
           = (if 0 < int_max_str_digits py \<and> int_max_str_digits py < int (length ds) then Inl ValueError
              else Inr (foldl (\<lambda>n c. 10 * n + the (decimal_value py c)) 0 ds))"
proof -
  have "\<And>n. foldl (\<lambda>n c. 10 * n + (case decimal_value py c of None \<Rightarrow> 0 | Some d \<Rightarrow> d)) n ds
          = foldl (\<lambda>n c. 10 * n + the (decimal_value py c)) n ds"
    using assms by (induction ds) (auto simp: isdecimal_def)
  then show ?thesis by (simp add: py_int_def)
qed

lemma digit_rest_shorter:
  assumes "dropWhile (\<lambda>c. \<not> P c) s \<noteq> []"
  shows "length (dropWhile P (dropWhile (\<lambda>c. \<not> P c) s)) < length s"
proof -
  let ?r = "dropWhile (\<lambda>c. \<not> P c) s"
  obtain x xs where r: "?r = x # xs" using assms by (cases ?r) auto
  have "\<not> \<not> P (hd ?r)" using assms by (rule hd_dropWhile)
  then have "P x" by (simp only: r list.sel not_not)
  then have "dropWhile P (x # xs) = dropWhile P xs" by simp
  then have "length (dropWhile P ?r) = length (dropWhile P xs)" by (simp only: r)
  moreover have "length (dropWhile P xs) \<le> length xs" by (rule length_dropWhile_le)
  moreover have "length ?r \<le> length s" by (rule length_dropWhile_le)
  moreover have "length ?r = Suc (length xs)" by (simp only: r length_Cons)
  ultimately show ?thesis by linarith
qed

lemma re_sub_digits_done:
  assumes "dropWhile (\<lambda>c. \<not> isdecimal py c) s = []"
  shows "re_sub_digits py s = Inr s"
  by (subst re_sub_digits.simps) (simp only: assms if_True simp_thms)

lemma re_sub_digits_unfold:
  assumes "dropWhile (\<lambda>c. \<not> isdecimal py c) s \<noteq> []"
  shows "re_sub_digits py s
        = (case py_int py (takeWhile (isdecimal py) (dropWhile (\<lambda>c. \<not> isdecimal py c) s)) of
             Inl e \<Rightarrow> Inl e
           | Inr n \<Rightarrow>
               (case re_sub_digits py (dropWhile (isdecimal py) (dropWhile (\<lambda>c. \<not> isdecimal py c) s)) of
                  Inl e \<Rightarrow> Inl e
                | Inr rest \<Rightarrow> Inr (takeWhile (\<lambda>c. \<not> isdecimal py c) s @ py_str n @ rest)))"
  by (subst re_sub_digits.simps) (simp only: assms if_False)

lemma py_str_digits: "0 \<le> n \<Longrightarrow> c \<in> set (py_str n) \<Longrightarrow> 0x30 \<le> c \<and> c \<le> 0x39"
proof (induction n arbitrary: c rule: py_str.induct)
  case (1 n)
  show ?case
  proof (cases "n < 10")
    case True
    then have "py_str n = [0x30 + n]" using "1.prems"(1) by (subst py_str.simps) simp
    then show ?thesis using "1.prems" True by auto
  next
    case False
    then have e: "py_str n = py_str (n div 10) @ [0x30 + n mod 10]"
      using "1.prems"(1) by (subst py_str.simps) simp
    have n: "\<not> n < 0" using "1.prems"(1) by simp
    have d: "0 \<le> n div 10" using "1.prems"(1) by simp
    have m: "0 \<le> n mod 10 \<and> n mod 10 < 10" by simp
    show ?thesis
    proof (cases "c \<in> set (py_str (n div 10))")
      case True
      then show ?thesis using "1.IH"(2) [OF n False d] by simp
    next
      case c: False
      then have "c = 0x30 + n mod 10" using "1.prems"(2) e by simp
      then show ?thesis using m by simp
    qed
  qed
qed

lemma foldl_digits_nonneg:
  assumes "\<And>c. 0 \<le> f c" "0 \<le> (a::int)"
  shows "0 \<le> foldl (\<lambda>n c. 10 * n + f c) a ds"
  using assms(2)
proof (induction ds arbitrary: a)
  case Nil
  then show ?case by simp
next
  case (Cons d ds)
  have "0 \<le> 10 * a + f d" using Cons.prems assms(1) [of d] by simp
  then show ?case using Cons.IH by simp
qed

lemma py_int_ascii_nonneg: "py_int ascii_tables ds = Inr n \<Longrightarrow> 0 \<le> n"
proof -
  assume a: "py_int ascii_tables ds = Inr n"
  have "\<And>c. 0 \<le> (case decimal_value ascii_tables c of None \<Rightarrow> 0 | Some d \<Rightarrow> d)"
    by (simp add: ascii_tables_def)
  then have "0 \<le> foldl (\<lambda>n c. 10 * n + (case decimal_value ascii_tables c of None \<Rightarrow> 0 | Some d \<Rightarrow> d)) 0 ds"
    by (intro foldl_digits_nonneg) simp_all
  then show ?thesis using a by (simp add: py_int_def split: if_splits)
qed

lemma py_int_agree:
  assumes "\<forall>c \<in> set ds. decimal_value py c = decimal_value py' c"
    and "int_max_str_digits py = 0 \<or> int (length ds) \<le> int_max_str_digits py"
    and "int_max_str_digits py' = 0 \<or> int (length ds) \<le> int_max_str_digits py'"
  shows "py_int py ds = py_int py' ds"
proof -
  have "\<And>a. foldl (\<lambda>n c. 10 * n + (case decimal_value py c of None \<Rightarrow> 0 | Some d \<Rightarrow> d)) a ds
          = foldl (\<lambda>n c. 10 * n + (case decimal_value py' c of None \<Rightarrow> 0 | Some d \<Rightarrow> d)) a ds"
    using assms(1) by (induction ds) auto
  then show ?thesis using assms(2,3) by (auto simp: py_int_def)
qed

lemma re_sub_digits_agree:
  assumes "\<forall>c \<in> set s. decimal_value py c = decimal_value py' c"
    and "int_max_str_digits py = 0 \<or> int (length s) \<le> int_max_str_digits py"
    and "int_max_str_digits py' = 0 \<or> int (length s) \<le> int_max_str_digits py'"
  shows "re_sub_digits py s = re_sub_digits py' s"
  using assms
proof (induction s rule: length_induct)
  case (1 s)
  have dig: "\<And>c. c \<in> set s \<Longrightarrow> isdecimal py c = isdecimal py' c"
    using "1.prems"(1) by (simp add: isdecimal_def)
  let ?r = "dropWhile (\<lambda>c. \<not> isdecimal py c) s"
  have r: "dropWhile (\<lambda>c. \<not> isdecimal py' c) s = ?r"
    using dig by (intro dropWhile_cong refl) simp
  have t: "takeWhile (\<lambda>c. \<not> isdecimal py' c) s = takeWhile (\<lambda>c. \<not> isdecimal py c) s"
    using dig by (intro takeWhile_cong refl) simp
  have sub: "set ?r \<subseteq> set s" by (auto dest: set_dropWhileD)
  have ds: "takeWhile (isdecimal py') ?r = takeWhile (isdecimal py) ?r"
    using dig sub by (intro takeWhile_cong refl) auto
  have rest: "dropWhile (isdecimal py') ?r = dropWhile (isdecimal py) ?r"
    using dig sub by (intro dropWhile_cong refl) auto
  show ?case
  proof (cases "?r = []")
    case True
    then have "re_sub_digits py s = Inr s" by (rule re_sub_digits_done)
    moreover have "dropWhile (\<lambda>c. \<not> isdecimal py' c) s = []" unfolding r by (rule True)
    then have "re_sub_digits py' s = Inr s" by (rule re_sub_digits_done)
    ultimately show ?thesis by (simp only:)
  next
    case False
    let ?ds = "takeWhile (isdecimal py) ?r"
    let ?rest = "dropWhile (isdecimal py) ?r"
    have "length ?ds \<le> length ?r" by (rule length_takeWhile_le)
    moreover have lr: "length ?r \<le> length s" by (rule length_dropWhile_le)
    ultimately have len_ds: "int (length ?ds) \<le> int (length s)" by simp
    have sub_ds: "set ?ds \<subseteq> set s" using sub by (auto dest: set_takeWhileD)
    have d1: "\<forall>c \<in> set ?ds. decimal_value py c = decimal_value py' c"
      using "1.prems"(1) sub_ds by blast
    have d2: "int_max_str_digits py = 0 \<or> int (length ?ds) \<le> int_max_str_digits py"
      using "1.prems"(2) len_ds by linarith
    have d3: "int_max_str_digits py' = 0 \<or> int (length ?ds) \<le> int_max_str_digits py'"
      using "1.prems"(3) len_ds by linarith
    have pi: "py_int py ?ds = py_int py' ?ds"
      using d1 d2 d3 by (rule py_int_agree)
    have len_rest: "length ?rest < length s" using False by (rule digit_rest_shorter)
    then have len_rest': "int (length ?rest) \<le> int (length s)" by simp
    have sub_rest: "set ?rest \<subseteq> set s" using sub by (auto dest: set_dropWhileD)
    have p1: "\<And>c. c \<in> set ?rest \<Longrightarrow> decimal_value py c = decimal_value py' c"
      using "1.prems"(1) sub_rest by blast
    have p2: "int_max_str_digits py = 0 \<or> int (length ?rest) \<le> int_max_str_digits py"
      using "1.prems"(2) len_rest' by linarith
    have p3: "int_max_str_digits py' = 0 \<or> int (length ?rest) \<le> int_max_str_digits py'"
      using "1.prems"(3) len_rest' by linarith
    have ih: "re_sub_digits py ?rest = re_sub_digits py' ?rest"
      by (rule "1.IH" [rule_format, OF len_rest p1 p2 p3])
    have u1: "re_sub_digits py s
        = (case py_int py ?ds of
             Inl e \<Rightarrow> Inl e
           | Inr n \<Rightarrow>
               (case re_sub_digits py ?rest of
                  Inl e \<Rightarrow> Inl e
                | Inr rest \<Rightarrow> Inr (takeWhile (\<lambda>c. \<not> isdecimal py c) s @ py_str n @ rest)))"
      using False by (rule re_sub_digits_unfold)
    have ne': "dropWhile (\<lambda>c. \<not> isdecimal py' c) s \<noteq> []" unfolding r by (rule False)
    have u2: "re_sub_digits py' s
        = (case py_int py' ?ds of
             Inl e \<Rightarrow> Inl e
           | Inr n \<Rightarrow>
               (case re_sub_digits py' ?rest of
                  Inl e \<Rightarrow> Inl e
                | Inr rest \<Rightarrow> Inr (takeWhile (\<lambda>c. \<not> isdecimal py c) s @ py_str n @ rest)))"
      using re_sub_digits_unfold [OF ne'] by (simp only: r t ds rest)
    show ?thesis unfolding u1 u2 pi ih by (rule refl)
  qed
qed

lemma re_sub_digits_ascii_chars:
  "re_sub_digits ascii_tables s = Inr t \<Longrightarrow> c \<in> set t
     \<Longrightarrow> c \<in> set s \<or> (0x30 \<le> c \<and> c \<le> 0x39)"
proof (induction s arbitrary: t rule: length_induct)
  case (1 s)
  let ?A = ascii_tables
  let ?r = "dropWhile (\<lambda>c. \<not> isdecimal ?A c) s"
  show ?case
  proof (cases "?r = []")
    case True
    then have "re_sub_digits ?A s = Inr s" by (rule re_sub_digits_done)
    then show ?thesis using "1.prems" by simp
  next
    case False
    let ?ds = "takeWhile (isdecimal ?A) ?r"
    let ?rest = "dropWhile (isdecimal ?A) ?r"
    have unfold: "re_sub_digits ?A s
        = (case py_int ?A ?ds of
             Inl e \<Rightarrow> Inl e
           | Inr n \<Rightarrow>
               (case re_sub_digits ?A ?rest of
                  Inl e \<Rightarrow> Inl e
                | Inr rest \<Rightarrow> Inr (takeWhile (\<lambda>c. \<not> isdecimal ?A c) s @ py_str n @ rest)))"
      using False by (rule re_sub_digits_unfold)
    obtain n t' where n: "py_int ?A ?ds = Inr n" and t': "re_sub_digits ?A ?rest = Inr t'"
      and t: "t = takeWhile (\<lambda>c. \<not> isdecimal ?A c) s @ py_str n @ t'"
      using "1.prems"(1) unfolding unfold by (auto split: sum.splits)
    have len_rest: "length ?rest < length s" using False by (rule digit_rest_shorter)
    have sub_rest: "set ?rest \<subseteq> set s" by (auto dest!: set_dropWhileD)
    have nn: "0 \<le> n" using n by (rule py_int_ascii_nonneg)
    from "1.prems"(2) t consider "c \<in> set (takeWhile (\<lambda>c. \<not> isdecimal ?A c) s)"
      | "c \<in> set (py_str n)" | "c \<in> set t'" by auto
    then show ?thesis
    proof cases
      case 1
      then show ?thesis by (auto dest: set_takeWhileD)
    next
      case 2
      then show ?thesis using py_str_digits [OF nn] by simp
    next
      case 3
      have "c \<in> set ?rest \<or> (0x30 \<le> c \<and> c \<le> 0x39)"
        by (rule "1.IH" [rule_format, OF len_rest t' 3])
      then show ?thesis using sub_rest by auto
    qed
  qed
qed

section \<open>Names in ASCII\<close>

text \<open>
  On a line in ASCII of at most 640 characters, every interpreter with the tables of
  Unicode on ASCII normalizes and parses as \<open>ascii_tables\<close> does: the groups of the two
  patterns are parts of the line.
\<close>

lemma ascii_interp_ascii_tables: "ascii_interp ascii_tables"
  by (simp add: ascii_interp_def ascii_tables_def)

lemma clean_channel_name_ascii:
  assumes py: "ascii_interp py"
    and name: "\<forall>c \<in> set name. (0 \<le> c \<and> c \<le> 0x7F) \<or> c = 0x300C \<or> c = 0x300D"
    and len: "length name \<le> 640"
  shows "clean_channel_name py name = clean_channel_name ascii_tables name"
proof -
  let ?s = "filter (\<lambda>c. \<not> isspace c)
              (filter (\<lambda>c. c \<noteq> dollar \<and> c \<noteq> 0x300C \<and> c \<noteq> 0x300D \<and> c \<noteq> 0x2D) name)"
  have tab: "\<And>c. 0 \<le> c \<and> c \<le> 0x7F \<Longrightarrow>
               decimal_value py c = decimal_value ascii_tables c
               \<and> upper_full py c = upper_full ascii_tables c"
    using py by (simp add: ascii_interp_def)
  have lim: "int_max_str_digits py = 0 \<or> 640 \<le> int_max_str_digits py"
    using py by (simp add: ascii_interp_def)
  have sub: "\<And>c. c \<in> set ?s \<Longrightarrow> 0 \<le> c \<and> c \<le> 0x7F" using name by auto
  have "length ?s
          \<le> length (filter (\<lambda>c. c \<noteq> dollar \<and> c \<noteq> 0x300C \<and> c \<noteq> 0x300D \<and> c \<noteq> 0x2D) name)"
    by (rule length_filter_le)
  also have "\<dots> \<le> length name" by (rule length_filter_le)
  finally have "length ?s \<le> length name" .
  then have l: "int (length ?s) \<le> 640" using len by linarith
  have t1: "\<forall>c \<in> set ?s. decimal_value py c = decimal_value ascii_tables c"
    using tab sub by blast
  have l1: "int_max_str_digits py = 0 \<or> int (length ?s) \<le> int_max_str_digits py"
    using lim l by linarith
  have "int_max_str_digits ascii_tables = 4300" by (simp add: ascii_tables_def)
  then have l2: "int_max_str_digits ascii_tables = 0 \<or> int (length ?s) \<le> int_max_str_digits ascii_tables"
    using l by linarith
  have e: "re_sub_digits py ?s = re_sub_digits ascii_tables ?s"
    using t1 l1 l2 by (rule re_sub_digits_agree)
  show ?thesis
  proof (cases "re_sub_digits ascii_tables ?s")
    case (Inl err)
    then show ?thesis using e by (simp add: clean_channel_name_def Let_def)
  next
    case (Inr t)
    have "\<And>c. c \<in> set t \<Longrightarrow> upper_full py c = upper_full ascii_tables c"
    proof -
      fix c assume "c \<in> set t"
      then have "c \<in> set ?s \<or> (0x30 \<le> c \<and> c \<le> 0x39)"
        using re_sub_digits_ascii_chars [OF Inr] by simp
      then have "0 \<le> c \<and> c \<le> 0x7F" using sub by auto
      then show "upper_full py c = upper_full ascii_tables c" using tab by blast
    qed
    then have "upper py t = upper ascii_tables t"
      by (simp add: upper_def cong: map_cong)
    then show ?thesis using e Inr by (simp add: clean_channel_name_def Let_def)
  qed
qed

lemma clean_if_cctv_ascii:
  assumes "ascii_interp py" "\<forall>c \<in> set name. 0 \<le> c \<and> c \<le> 0x7F" "length name \<le> 640"
  shows "clean_if_cctv py name = clean_if_cctv ascii_tables name"
proof -
  have "\<forall>c \<in> set name. (0 \<le> c \<and> c \<le> 0x7F) \<or> c = 0x300C \<or> c = 0x300D"
    using assms(2) by blast
  then have "clean_channel_name py name = clean_channel_name ascii_tables name"
    using assms(1,3) by (intro clean_channel_name_ascii)
  then show ?thesis by (simp add: clean_if_cctv_def)
qed

lemma set_strip: "set (strip s) \<subseteq> set s"
  by (auto simp: strip_def dest!: set_dropWhileD)

lemma length_strip: "length (strip s) \<le> length s"
proof -
  have "length (strip s) = length (dropWhile isspace (rev (dropWhile isspace s)))"
    by (simp add: strip_def)
  also have "\<dots> \<le> length (rev (dropWhile isspace s))" by (rule length_dropWhile_le)
  also have "\<dots> \<le> length s" by (simp add: length_dropWhile_le)
  finally show ?thesis .
qed

lemma match_title_groups_part:
  "match_title_groups s = Some (g1, g2) \<Longrightarrow> set g2 \<subseteq> set s \<and> length g2 \<le> length s"
proof (induction s arbitrary: g1 g2)
  case Nil
  then show ?case by simp
next
  case (Cons c cs)
  show ?case
  proof (cases "startswith (c # cs) [dquote, comma]")
    case True
    then have g2: "g2 = takeWhile (\<lambda>x. x \<noteq> newline) (drop 1 cs)" using Cons.prems by simp
    have "set g2 \<subseteq> set (drop 1 cs)" unfolding g2 by (auto dest: set_takeWhileD)
    moreover have "set (drop 1 cs) \<subseteq> set cs" by (rule set_drop_subset)
    moreover have "length g2 \<le> length (drop 1 cs)" unfolding g2 by (rule length_takeWhile_le)
    ultimately show ?thesis by auto
  next
    case False
    then obtain h1 where "match_title_groups cs = Some (h1, g2)"
      using Cons.prems by (auto split: if_splits option.splits)
    then have "set g2 \<subseteq> set cs \<and> length g2 \<le> length cs" by (rule Cons.IH)
    then show ?thesis by auto
  qed
qed

lemma re_search_group_title_part:
  "re_search_group_title s = Some (g1, g2) \<Longrightarrow> set g2 \<subseteq> set s \<and> length g2 \<le> length s"
proof (induction s)
  case Nil
  then show ?case by simp
next
  case (Cons c cs)
  show ?case
  proof (cases "startswith (c # cs) group_title
                \<and> match_title_groups (drop (length group_title) (c # cs)) \<noteq> None")
    case True
    then have "match_title_groups (drop (length group_title) (c # cs)) = Some (g1, g2)"
      using Cons.prems by (auto simp del: drop_Cons' split: option.splits)
    then have "set g2 \<subseteq> set (drop (length group_title) (c # cs))
               \<and> length g2 \<le> length (drop (length group_title) (c # cs))"
      by (rule match_title_groups_part)
    moreover have "set (drop (length group_title) (c # cs)) \<subseteq> set (c # cs)"
      by (rule set_drop_subset)
    moreover have "length (drop (length group_title) (c # cs)) \<le> length (c # cs)" by simp
    ultimately show ?thesis by (meson order_trans)
  next
    case False
    then have "re_search_group_title cs = Some (g1, g2)"
      using Cons.prems by (auto split: option.splits if_splits)
    then have "set g2 \<subseteq> set cs \<and> length g2 \<le> length cs" by (rule Cons.IH)
    then show ?thesis by auto
  qed
qed

lemma re_match_txt_part:
  assumes "re_match_txt s = Some (g1, g2)"
  shows "set g1 \<subseteq> set s \<and> length g1 \<le> length s"
proof -
  let ?body = "if s \<noteq> [] \<and> last s = newline then butlast s else s"
  have g1: "g1 = takeWhile (\<lambda>c. c \<noteq> comma) ?body"
    using assms by (auto simp: re_match_txt_def Let_def split: if_splits)
  have "set ?body \<subseteq> set s" by (auto dest: in_set_butlastD)
  moreover have "length ?body \<le> length s" by simp
  moreover have "set g1 \<subseteq> set ?body" unfolding g1 by (auto dest: set_takeWhileD)
  moreover have "length g1 \<le> length ?body" unfolding g1 by (rule length_takeWhile_le)
  ultimately show ?thesis by (meson order_trans)
qed

lemma parse_m3u_step_ascii:
  assumes py: "ascii_interp py"
    and raw: "\<forall>c \<in> set raw. 0 \<le> c \<and> c \<le> 0x7F" "length raw \<le> 640"
  shows "parse_m3u_step py st raw = parse_m3u_step ascii_tables st raw"
proof (cases "re_search_group_title (strip raw)")
  case None
  then show ?thesis by (simp add: parse_m3u_step_def Let_def)
next
  case (Some g)
  obtain g1 g2 where g: "g = (g1, g2)" by (cases g)
  have p: "set g2 \<subseteq> set (strip raw) \<and> length g2 \<le> length (strip raw)"
    using Some g by (intro re_search_group_title_part [of _ g1]) simp
  have "set (strip g2) \<subseteq> set raw"
    using p set_strip [of g2] set_strip [of raw] by blast
  then have a: "\<forall>c \<in> set (strip g2). 0 \<le> c \<and> c \<le> 0x7F" using raw(1) by blast
  have "length (strip g2) \<le> length raw"
    using p length_strip [of g2] length_strip [of raw] by linarith
  then have l: "length (strip g2) \<le> 640" using raw(2) by linarith
  have "clean_if_cctv py (strip g2) = clean_if_cctv ascii_tables (strip g2)"
    using py a l by (rule clean_if_cctv_ascii)
  then show ?thesis using Some g by (simp add: parse_m3u_step_def Let_def)
qed

lemma parse_txt_step_ascii:
  assumes py: "ascii_interp py"
    and raw: "\<forall>c \<in> set raw. 0 \<le> c \<and> c \<le> 0x7F" "length raw \<le> 640"
  shows "parse_txt_step py st raw = parse_txt_step ascii_tables st raw"
proof (cases "re_match_txt (strip raw)")
  case None
  then show ?thesis by (simp add: parse_txt_step_def Let_def split: option.splits)
next
  case (Some g)
  obtain g1 g2 where g: "g = (g1, g2)" by (cases g)
  have p: "set g1 \<subseteq> set (strip raw) \<and> length g1 \<le> length (strip raw)"
    using Some g by (intro re_match_txt_part [of _ _ g2]) simp
  have "set (strip g1) \<subseteq> set raw"
    using p set_strip [of g1] set_strip [of raw] by blast
  then have a: "\<forall>c \<in> set (strip g1). 0 \<le> c \<and> c \<le> 0x7F" using raw(1) by blast
  have "length (strip g1) \<le> length raw"
    using p length_strip [of g1] length_strip [of raw] by linarith
  then have l: "length (strip g1) \<le> 640" using raw(2) by linarith
  have "clean_if_cctv py (strip g1) = clean_if_cctv ascii_tables (strip g1)"
    using py a l by (rule clean_if_cctv_ascii)
  then show ?thesis using Some g by (simp add: parse_txt_step_def Let_def split: option.splits)
qed

lemma for_each_cong:
  assumes "\<And>st x. x \<in> set xs \<Longrightarrow> f st x = g st x"
  shows "for_each f st xs = for_each g st xs"
  using assms
proof (induction xs arbitrary: st)
  case Nil
  show ?case by simp
next
  case (Cons x xs)
  have e: "f st x = g st x" using Cons.prems by simp
  have "\<And>st'. for_each f st' xs = for_each g st' xs" using Cons.prems by (intro Cons.IH) simp
  then show ?case by (simp add: e split: sum.splits)
qed

lemma parse_m3u_lines_ascii:
  assumes "ascii_interp py" "\<forall>l \<in> set lines. (\<forall>c \<in> set l. 0 \<le> c \<and> c \<le> 0x7F) \<and> length l \<le> 640"
  shows "parse_m3u_lines py lines = parse_m3u_lines ascii_tables lines"
proof -
  have "for_each (parse_m3u_step py) init_state lines
          = for_each (parse_m3u_step ascii_tables) init_state lines"
    using assms by (intro for_each_cong parse_m3u_step_ascii) auto
  then show ?thesis by (simp add: parse_m3u_lines_def)
qed

lemma parse_txt_lines_ascii:
  assumes "ascii_interp py" "\<forall>l \<in> set lines. (\<forall>c \<in> set l. 0 \<le> c \<and> c \<le> 0x7F) \<and> length l \<le> 640"
  shows "parse_txt_lines py lines = parse_txt_lines ascii_tables lines"
proof -
  have "for_each (parse_txt_step py) init_state lines
          = for_each (parse_txt_step ascii_tables) init_state lines"
    using assms by (intro for_each_cong parse_txt_step_ascii) auto
  then show ?thesis by (simp add: parse_txt_lines_def)
qed

section \<open>The name normalizer and its call sites\<close>

lemma foldl_digits_mono:
  assumes "\<And>c. c \<in> set ds \<Longrightarrow> 0 \<le> f c" "0 \<le> (a::int)"
  shows "a \<le> foldl (\<lambda>n c. 10 * n + f c) a ds"
  using assms
proof (induction ds arbitrary: a)
  case Nil
  show ?case by simp
next
  case (Cons d ds)
  have d: "0 \<le> f d" using Cons.prems(1) by simp
  have "10 * a + f d \<le> foldl (\<lambda>n c. 10 * n + f c) (10 * a + f d) ds"
    using Cons.prems d by (intro Cons.IH) auto
  then show ?case using Cons.prems(2) d by simp
qed

lemma foldl_zeros: "foldl (\<lambda>n c. 10 * n + (c - 0x30)) (0::int) (replicate k 0x30) = 0"
  by (induction k) simp_all

lemma py_str_value:
  assumes "\<forall>c \<in> set ds. 0x30 \<le> c \<and> c \<le> 0x39" "ds \<noteq> []" "hd ds \<noteq> 0x30 \<or> length ds = 1"
  shows "py_str (foldl (\<lambda>n c. 10 * n + (c - 0x30)) 0 ds) = ds"
  using assms
proof (induction ds rule: rev_induct)
  case Nil
  then show ?case by simp
next
  case (snoc d xs)
  let ?v = "foldl (\<lambda>n c. 10 * n + (c - 0x30)) 0 xs"
  have d: "0 \<le> d - 0x30" "d - 0x30 < 10" using snoc.prems(1) by auto
  have val: "foldl (\<lambda>n c. 10 * n + (c - 0x30)) 0 (xs @ [d]) = 10 * ?v + (d - 0x30)" by simp
  show ?case
  proof (cases xs)
    case Nil
    then have "foldl (\<lambda>n c. 10 * n + (c - 0x30)) 0 (xs @ [d]) = d - 0x30" by simp
    moreover have "py_str (d - 0x30) = [0x30 + (d - 0x30)]"
      using d by (subst py_str.simps) simp
    ultimately show ?thesis using Nil by simp
  next
    case (Cons x xs')
    have x: "0x30 \<le> x" "x \<le> 0x39" "x \<noteq> 0x30" using snoc.prems(1,3) Cons by auto
    have "x - 0x30 \<le> foldl (\<lambda>n c. 10 * n + (c - 0x30)) (x - 0x30) xs'"
      using snoc.prems(1) Cons x by (intro foldl_digits_mono) auto
    then have v: "1 \<le> ?v" using x Cons by simp
    have ih: "py_str ?v = xs"
      using snoc.prems(1,3) Cons by (intro snoc.IH) auto
    have n: "\<not> 10 * ?v + (d - 0x30) < 0" "\<not> 10 * ?v + (d - 0x30) < 10"
      using v d by auto
    have dv: "(10 * ?v + (d - 0x30)) div 10 = ?v" using d by simp
    have md: "(10 * ?v + (d - 0x30)) mod 10 = d - 0x30" using d by simp
    have "py_str (10 * ?v + (d - 0x30)) = py_str ?v @ [0x30 + (d - 0x30)]"
      by (subst py_str.simps) (simp only: n if_False dv md)
    then show ?thesis by (simp only: val ih) simp
  qed
qed

lemma py_str_leading_zeros:
  assumes py: "ascii_interp py"
    and ds: "\<forall>c \<in> set ds. 0x30 \<le> c \<and> c \<le> 0x39" "ds \<noteq> []" "hd ds \<noteq> 0x30 \<or> length ds = 1"
  shows "py_str (foldl (\<lambda>n c. 10 * n + the (decimal_value py c)) 0 (replicate k 0x30 @ ds)) = ds"
proof -
  have tab: "\<And>c. 0x30 \<le> c \<and> c \<le> 0x39 \<Longrightarrow> the (decimal_value py c) = c - 0x30"
    using py by (simp add: ascii_interp_def ascii_tables_def)
  have "\<And>a. \<forall>c \<in> set xs. 0x30 \<le> c \<and> c \<le> 0x39 \<Longrightarrow>
          foldl (\<lambda>n c. 10 * n + the (decimal_value py c)) a xs
          = foldl (\<lambda>n c. 10 * n + (c - 0x30)) a xs" for xs
    by (induction xs) (simp_all add: tab)
  moreover have "\<forall>c \<in> set (replicate k 0x30 @ ds). 0x30 \<le> c \<and> c \<le> 0x39"
    using ds(1) by auto
  ultimately have "foldl (\<lambda>n c. 10 * n + the (decimal_value py c)) 0 (replicate k 0x30 @ ds)
          = foldl (\<lambda>n c. 10 * n + (c - 0x30)) 0 (replicate k 0x30 @ ds)"
    by blast
  also have "\<dots> = foldl (\<lambda>n c. 10 * n + (c - 0x30)) 0 ds"
    by (simp only: foldl_append foldl_zeros)
  finally have e: "foldl (\<lambda>n c. 10 * n + the (decimal_value py c)) 0 (replicate k 0x30 @ ds)
          = foldl (\<lambda>n c. 10 * n + (c - 0x30)) 0 ds" .
  show ?thesis unfolding e using ds by (rule py_str_value)
qed

text \<open>
  Claim C3, as the code has it. \<^verbatim>\<open>clean_channel_name\<close> removes the four characters
  \<^verbatim>\<open>$\<close>, \<open>0x300C\<close>, \<open>0x300D\<close> and \<^verbatim>\<open>-\<close> themselves and all white space, replaces each run
  of decimal digits by \<^verbatim>\<open>str(int(run))\<close> and maps every character of the result to upper
  case; the text between the corner brackets stays. With the tables of the interpreter
  as they come (any decimal digits, any case mapping, any limit):
  \<^item> the function is the substitution of digit runs applied to the name without those
    characters, each character of the result replaced by its upper-case mapping, and
    a \<^verbatim>\<open>ValueError\<close> of the substitution is one of the function;
  \<^item> the substitution leaves a text without digits as it is;
  \<^item> on a text that reads \<open>ns\<close> (no digit), \<open>ds\<close> (digits, at least one), \<open>rest\<close> (not
    starting with a digit) it raises \<^verbatim>\<open>ValueError\<close> when \<open>ds\<close> is longer than a limit that
    is set, and gives \<open>ns\<close>, the numeral of the value of \<open>ds\<close> and the substitution of
    \<open>rest\<close> otherwise.

  With the tables of Unicode on ASCII: the numeral of the value of \<open>k\<close> zeros followed by
  a numeral \<open>sig\<close> (digits \<^verbatim>\<open>0\<close> to \<^verbatim>\<open>9\<close>, no leading zero unless it is the one digit \<^verbatim>\<open>0\<close>)
  is \<open>sig\<close>, so leading zeros go; the name
  \<^verbatim>\<open>CCTV-1\<close>, a blank and \<^verbatim>\<open>HD\<close> in corner brackets becomes \<^verbatim>\<open>CCTV1HD\<close>, and \<^verbatim>\<open>CCTV05\<close>
  becomes \<^verbatim>\<open>CCTV5\<close>.

  At its two call sites the function is applied to the trimmed name exactly when that
  name starts with \<^verbatim>\<open>CCTV\<close>: the extended parser records the second group of its
  pattern, trimmed, and the delimited parser stores the text before the first comma,
  trimmed, normalized in that case only and as they are otherwise; an exception of the
  normalizer is the exception of the step (\<open>map_sum id f\<close> applies \<open>f\<close> to a result and
  leaves an exception as it is).
\<close>

theorem clean_channel_name_call_sites:
  assumes plain: "\<forall>c \<in> set plain. \<not> isdecimal py c"
    and run: "\<forall>c \<in> set ns. \<not> isdecimal py c" "ds \<noteq> []" "\<forall>c \<in> set ds. isdecimal py c"
             "rest = [] \<or> \<not> isdecimal py (hd rest)"
    and sig: "\<forall>c \<in> set sig. 0x30 \<le> c \<and> c \<le> 0x39" "sig \<noteq> []"
             "hd sig \<noteq> 0x30 \<or> length sig = 1"
    and m3u: "startswith (strip raw) (ustr ''#EXTINF'')"
             "re_search_group_title (strip raw) = Some (g1, g2)"
    and delim: "\<not> contains (ustr ''#genre#'') (strip raw')" "current_category st' = Some category"
               "category \<noteq> []" "re_match_txt (strip raw') = Some (h1, h2)"
  shows "clean_channel_name py name
           = (case re_sub_digits py
                     (filter (\<lambda>c. c \<notin> {dollar, 0x300C, 0x300D, 0x2D} \<and> \<not> isspace c) name) of
                Inl e \<Rightarrow> Inl e
              | Inr s \<Rightarrow> Inr (concat (map (upper_full py) s)))
       \<and> re_sub_digits py plain = Inr plain
       \<and> re_sub_digits py (ns @ ds @ rest)
           = (if 0 < int_max_str_digits py \<and> int_max_str_digits py < int (length ds)
              then Inl ValueError
              else case re_sub_digits py rest of
                     Inl e \<Rightarrow> Inl e
                   | Inr t \<Rightarrow>
                       Inr (ns @ py_str (foldl (\<lambda>n c. 10 * n + the (decimal_value py c)) 0 ds) @ t))
       \<and> (ascii_interp py \<longrightarrow>
            py_str (foldl (\<lambda>n c. 10 * n + the (decimal_value py c)) 0 (replicate k 0x30 @ sig)) = sig
          \<and> clean_channel_name py (ustr ''CCTV-1 '' @ [0x300C] @ ustr ''HD'' @ [0x300D])
              = Inr (ustr ''CCTV1HD'')
          \<and> clean_channel_name py (ustr ''CCTV05'') = Inr (ustr ''CCTV5''))
       \<and> map_sum id channel_name (parse_m3u_step py st raw)
           = map_sum id Some
               (if startswith (strip g2) (ustr ''CCTV'') then clean_channel_name py (strip g2)
                else Inr (strip g2))
       \<and> map_sum id channels (parse_txt_step py st' raw')
           = map_sum id
               (\<lambda>name. od_extend category
                          (map (\<lambda>url. (name, strip url)) (split_on hash (strip h2)))
                          (channels st'))
               (if startswith (strip h1) (ustr ''CCTV'') then clean_channel_name py (strip h1)
                else Inr (strip h1))"
proof -
  have "filter (\<lambda>c. \<not> isspace c)
          (filter (\<lambda>c. c \<noteq> dollar \<and> c \<noteq> 0x300C \<and> c \<noteq> 0x300D \<and> c \<noteq> 0x2D) name)
        = filter (\<lambda>c. c \<notin> {dollar, 0x300C, 0x300D, 0x2D} \<and> \<not> isspace c) name"
    by (simp add: conj_ac)
  then have 1: "clean_channel_name py name
           = (case re_sub_digits py
                     (filter (\<lambda>c. c \<notin> {dollar, 0x300C, 0x300D, 0x2D} \<and> \<not> isspace c) name) of
                Inl e \<Rightarrow> Inl e
              | Inr s \<Rightarrow> Inr (concat (map (upper_full py) s)))"
    unfolding clean_channel_name_def Let_def upper_def by (simp only:)
  have 2: "re_sub_digits py plain = Inr plain"
    using plain by (rule re_sub_digits_no_digit)
  have "re_sub_digits py (ns @ ds @ rest)
           = (case py_int py ds of
                Inl e \<Rightarrow> Inl e
              | Inr n \<Rightarrow>
                  (case re_sub_digits py rest of
                     Inl e \<Rightarrow> Inl e
                   | Inr t \<Rightarrow> Inr (ns @ py_str n @ t)))"
    using run by (rule re_sub_digits_run)
  then have 3: "re_sub_digits py (ns @ ds @ rest)
           = (if 0 < int_max_str_digits py \<and> int_max_str_digits py < int (length ds)
              then Inl ValueError
              else case re_sub_digits py rest of
                     Inl e \<Rightarrow> Inl e
                   | Inr t \<Rightarrow>
                       Inr (ns @ py_str (foldl (\<lambda>n c. 10 * n + the (decimal_value py c)) 0 ds) @ t))"
    by (simp add: py_int_value [OF run(3)])
  have 4: "py_str (foldl (\<lambda>n c. 10 * n + the (decimal_value py c)) 0 (replicate k 0x30 @ sig)) = sig
          \<and> clean_channel_name py (ustr ''CCTV-1 '' @ [0x300C] @ ustr ''HD'' @ [0x300D])
              = Inr (ustr ''CCTV1HD'')
          \<and> clean_channel_name py (ustr ''CCTV05'') = Inr (ustr ''CCTV5'')"
    if ascii: "ascii_interp py"
  proof (intro conjI)
    show "py_str (foldl (\<lambda>n c. 10 * n + the (decimal_value py c)) 0 (replicate k 0x30 @ sig)) = sig"
      using ascii sig by (rule py_str_leading_zeros)
    have a1: "\<forall>c \<in> set (ustr ''CCTV-1 '' @ [0x300C] @ ustr ''HD'' @ [0x300D]).
                (0 \<le> c \<and> c \<le> 0x7F) \<or> c = 0x300C \<or> c = 0x300D"
      by code_simp
    have l1: "length (ustr ''CCTV-1 '' @ [0x300C] @ ustr ''HD'' @ [0x300D]) \<le> 640"
      by code_simp
    have e1: "clean_channel_name ascii_tables (ustr ''CCTV-1 '' @ [0x300C] @ ustr ''HD'' @ [0x300D])
                = Inr (ustr ''CCTV1HD'')"
      by code_simp
    show "clean_channel_name py (ustr ''CCTV-1 '' @ [0x300C] @ ustr ''HD'' @ [0x300D])
             = Inr (ustr ''CCTV1HD'')"
      using clean_channel_name_ascii [OF ascii a1 l1] by (simp only: e1)
    have a2: "\<forall>c \<in> set (ustr ''CCTV05''). (0 \<le> c \<and> c \<le> 0x7F) \<or> c = 0x300C \<or> c = 0x300D"
      by code_simp
    have l2: "length (ustr ''CCTV05'') \<le> 640"
      by code_simp
    have e2: "clean_channel_name ascii_tables (ustr ''CCTV05'') = Inr (ustr ''CCTV5'')"
      by code_simp
    show "clean_channel_name py (ustr ''CCTV05'') = Inr (ustr ''CCTV5'')"
      using clean_channel_name_ascii [OF ascii a2 l2] by (simp only: e2)
  qed
  have 5: "map_sum id channel_name (parse_m3u_step py st raw)
           = map_sum id Some
               (if startswith (strip g2) (ustr ''CCTV'') then clean_channel_name py (strip g2)
                else Inr (strip g2))"
    unfolding parse_m3u_step_def Let_def using m3u
    by (simp add: clean_if_cctv_eq split: sum.splits)
  have 6: "map_sum id channels (parse_txt_step py st' raw')
           = map_sum id
               (\<lambda>name. od_extend category
                          (map (\<lambda>url. (name, strip url)) (split_on hash (strip h2)))
                          (channels st'))
               (if startswith (strip h1) (ustr ''CCTV'') then clean_channel_name py (strip h1)
                else Inr (strip h1))"
    unfolding parse_txt_step_def Let_def using delim
    by (simp add: foldl_od_append clean_if_cctv_eq split: sum.splits)
  show ?thesis using 1 2 3 4 5 6 by blast
qed

text \<open>
  The theorem with the tables on ASCII: at a name in lower case with blanks, \<^verbatim>\<open>-\<close>, \<^verbatim>\<open>$\<close>
  and leading zeros, at the text \<^verbatim>\<open>CCTV05HD\<close>, at the numeral \<^verbatim>\<open>0070\<close>, at an \<^verbatim>\<open>#EXTINF\<close>
  line naming \<^verbatim>\<open>CCTV-05\<close>, which is normalized, and at a delimited line naming
  \<^verbatim>\<open>Cctv-05\<close>, which is not. And with \<open>wide_tables\<close>: at \<^verbatim>\<open>CCTV\<close> followed by the
  full-width digits of 05 and the letters \<open>0xE9\<close> and \<open>0xDF\<close>, which becomes \<^verbatim>\<open>CCTV5\<close>,
  \<open>0xC9\<close> and \<^verbatim>\<open>SS\<close>; and at a run of 641 full-width digits, one more than the limit,
  where the substitution raises \<^verbatim>\<open>ValueError\<close> and so does the step of the extended parser
  on a line naming it.
\<close>

theorem clean_channel_name_call_sites_witness:
  "clean_channel_name ascii_tables (ustr '' cctv-007 $x'') = Inr (ustr ''CCTV7X'')
   \<and> re_sub_digits ascii_tables (ustr ''CCTV'') = Inr (ustr ''CCTV'')
   \<and> re_sub_digits ascii_tables (ustr ''CCTV'' @ ustr ''05'' @ ustr ''HD'') = Inr (ustr ''CCTV5HD'')
   \<and> py_str (foldl (\<lambda>n c. 10 * n + the (decimal_value ascii_tables c)) 0
               (replicate 2 0x30 @ ustr ''70''))
       = ustr ''70''
   \<and> clean_channel_name ascii_tables (ustr ''CCTV-1 '' @ [0x300C] @ ustr ''HD'' @ [0x300D])
       = Inr (ustr ''CCTV1HD'')
   \<and> clean_channel_name ascii_tables (ustr ''CCTV05'') = Inr (ustr ''CCTV5'')
   \<and> map_sum id channel_name
        (parse_m3u_step ascii_tables init_state
           (ustr ''#EXTINF:-1 group-title='' @ [dquote] @ ustr ''News'' @ [dquote] @ ustr '',CCTV-05 ''))
       = Inr (Some (ustr ''CCTV5''))
   \<and> map_sum id channels
        (parse_txt_step ascii_tables
           \<lparr>channels = [(ustr ''G'', [])], current_category = Some (ustr ''G''),
            channel_name = None\<rparr>
           (ustr ''Cctv-05 ,http://a/1''))
       = Inr [(ustr ''G'', [(ustr ''Cctv-05'', ustr ''http://a/1'')])]
   \<and> clean_channel_name wide_tables (ustr ''CCTV'' @ [0xFF10, 0xFF15, 0xE9, 0xDF])
       = Inr (ustr ''CCTV5'' @ [0xC9] @ ustr ''SS'')
   \<and> re_sub_digits wide_tables (ustr ''CCTV'' @ replicate 641 0xFF11 @ ustr ''HD'') = Inl ValueError
   \<and> map_sum id channel_name
        (parse_m3u_step wide_tables init_state
           (ustr ''#EXTINF:-1 group-title='' @ [dquote] @ ustr ''News'' @ [dquote] @ ustr '',CCTV''
              @ replicate 641 0xFF11))
       = Inl ValueError"
proof -
  let ?A = ascii_tables
  let ?W = wide_tables
  let ?name = "ustr '' cctv-007 $x''"
  let ?wname = "ustr ''CCTV'' @ [0xFF10, 0xFF15, 0xE9, 0xDF]"
  let ?raw = "ustr ''#EXTINF:-1 group-title='' @ [dquote] @ ustr ''News'' @ [dquote] @ ustr '',CCTV-05 ''"
  let ?wraw = "ustr ''#EXTINF:-1 group-title='' @ [dquote] @ ustr ''News'' @ [dquote] @ ustr '',CCTV''
              @ replicate 641 0xFF11"
  let ?raw' = "ustr ''Cctv-05 ,http://a/1''"
  let ?st' = "\<lparr>channels = [(ustr ''G'', [])], current_category = Some (ustr ''G''),
               channel_name = None\<rparr>"
  have p: "\<forall>c \<in> set (ustr ''CCTV''). \<not> isdecimal ?A c" by code_simp
  have r1: "\<forall>c \<in> set (ustr ''CCTV''). \<not> isdecimal ?A c" by code_simp
  have r2: "ustr ''05'' \<noteq> []" by code_simp
  have r3: "\<forall>c \<in> set (ustr ''05''). isdecimal ?A c" by code_simp
  have r4: "ustr ''HD'' = [] \<or> \<not> isdecimal ?A (hd (ustr ''HD''))" by code_simp
  have s1: "\<forall>c \<in> set (ustr ''70''). 0x30 \<le> c \<and> c \<le> 0x39" by code_simp
  have s2: "ustr ''70'' \<noteq> []" by code_simp
  have s3: "hd (ustr ''70'') \<noteq> 0x30 \<or> length (ustr ''70'') = 1" by code_simp
  have 1: "startswith (strip ?raw) (ustr ''#EXTINF'')" by code_simp
  have 2: "re_search_group_title (strip ?raw) = Some (ustr ''News'', ustr ''CCTV-05'')" by code_simp
  have 3: "\<not> contains (ustr ''#genre#'') (strip ?raw')" by code_simp
  have 4: "current_category ?st' = Some (ustr ''G'')" by simp
  have 5: "ustr ''G'' \<noteq> []" by code_simp
  have 6: "re_match_txt (strip ?raw') = Some (ustr ''Cctv-05 '', ustr ''http://a/1'')" by code_simp
  have a: "(case re_sub_digits ?A
                   (filter (\<lambda>c. c \<notin> {dollar, 0x300C, 0x300D, 0x2D} \<and> \<not> isspace c) ?name) of
              Inl e \<Rightarrow> Inl e
            | Inr s \<Rightarrow> Inr (concat (map (upper_full ?A) s)))
           = Inr (ustr ''CCTV7X'')" by code_simp
  have b: "(if 0 < int_max_str_digits ?A \<and> int_max_str_digits ?A < int (length (ustr ''05''))
            then Inl ValueError
            else case re_sub_digits ?A (ustr ''HD'') of
                   Inl e \<Rightarrow> Inl e
                 | Inr t \<Rightarrow>
                     Inr (ustr ''CCTV''
                          @ py_str (foldl (\<lambda>n c. 10 * n + the (decimal_value ?A c)) 0 (ustr ''05''))
                          @ t))
           = Inr (ustr ''CCTV5HD'')" by code_simp
  have c: "map_sum id Some
             (if startswith (strip (ustr ''CCTV-05'')) (ustr ''CCTV'')
              then clean_channel_name ?A (strip (ustr ''CCTV-05''))
              else Inr (strip (ustr ''CCTV-05'')))
           = Inr (Some (ustr ''CCTV5''))" by code_simp
  have d: "map_sum id
             (\<lambda>name. od_extend (ustr ''G'')
                        (map (\<lambda>url. (name, strip url)) (split_on hash (strip (ustr ''http://a/1''))))
                        (channels ?st'))
             (if startswith (strip (ustr ''Cctv-05 '')) (ustr ''CCTV'')
              then clean_channel_name ?A (strip (ustr ''Cctv-05 ''))
              else Inr (strip (ustr ''Cctv-05 '')))
           = Inr [(ustr ''G'', [(ustr ''Cctv-05'', ustr ''http://a/1'')])]" by code_simp
  have e: "ascii_interp ?A" by (rule ascii_interp_ascii_tables)
  have ascii: "clean_channel_name ascii_tables (ustr '' cctv-007 $x'') = Inr (ustr ''CCTV7X'')
   \<and> re_sub_digits ascii_tables (ustr ''CCTV'') = Inr (ustr ''CCTV'')
   \<and> re_sub_digits ascii_tables (ustr ''CCTV'' @ ustr ''05'' @ ustr ''HD'') = Inr (ustr ''CCTV5HD'')
   \<and> py_str (foldl (\<lambda>n c. 10 * n + the (decimal_value ascii_tables c)) 0
               (replicate 2 0x30 @ ustr ''70''))
       = ustr ''70''
   \<and> clean_channel_name ascii_tables (ustr ''CCTV-1 '' @ [0x300C] @ ustr ''HD'' @ [0x300D])
       = Inr (ustr ''CCTV1HD'')
   \<and> clean_channel_name ascii_tables (ustr ''CCTV05'') = Inr (ustr ''CCTV5'')
   \<and> map_sum id channel_name (parse_m3u_step ascii_tables init_state ?raw)
       = Inr (Some (ustr ''CCTV5''))
   \<and> map_sum id channels (parse_txt_step ascii_tables ?st' ?raw')
       = Inr [(ustr ''G'', [(ustr ''Cctv-05'', ustr ''http://a/1'')])]"
    using clean_channel_name_call_sites
            [where py = ?A and name = ?name and st = init_state and k = 2,
             OF p r1 r2 r3 r4 s1 s2 s3 1 2 3 4 5 6] e
    by (simp only: a b c d simp_thms)
  have wp: "\<forall>c \<in> set (ustr ''CCTV''). \<not> isdecimal ?W c" by code_simp
  have wr2: "replicate 641 0xFF11 \<noteq> ([]::pystr)" by code_simp
  have wr3: "\<forall>c \<in> set (replicate 641 0xFF11). isdecimal ?W c" by code_simp
  have wr4: "ustr ''HD'' = [] \<or> \<not> isdecimal ?W (hd (ustr ''HD''))" by code_simp
  have w1: "startswith (strip ?wraw) (ustr ''#EXTINF'')" by code_simp
  have w2: "re_search_group_title (strip ?wraw)
              = Some (ustr ''News'', ustr ''CCTV'' @ replicate 641 0xFF11)" by code_simp
  have wa: "(case re_sub_digits ?W
                   (filter (\<lambda>c. c \<notin> {dollar, 0x300C, 0x300D, 0x2D} \<and> \<not> isspace c) ?wname) of
              Inl e \<Rightarrow> Inl e
            | Inr s \<Rightarrow> Inr (concat (map (upper_full ?W) s)))
           = Inr (ustr ''CCTV5'' @ [0xC9] @ ustr ''SS'')" by code_simp
  have wl: "(0 < int_max_str_digits ?W
             \<and> int_max_str_digits ?W < int (length (replicate 641 (0xFF11::int)))) = True"
    by code_simp
  have wc: "map_sum id Some
             (if startswith (strip (ustr ''CCTV'' @ replicate 641 0xFF11)) (ustr ''CCTV'')
              then clean_channel_name ?W (strip (ustr ''CCTV'' @ replicate 641 0xFF11))
              else Inr (strip (ustr ''CCTV'' @ replicate 641 0xFF11)))
           = Inl ValueError" by code_simp
  have wide: "clean_channel_name ?W ?wname = Inr (ustr ''CCTV5'' @ [0xC9] @ ustr ''SS'')
    \<and> re_sub_digits ?W (ustr ''CCTV'' @ replicate 641 0xFF11 @ ustr ''HD'') = Inl ValueError
    \<and> map_sum id channel_name (parse_m3u_step ?W init_state ?wraw) = Inl ValueError"
    using clean_channel_name_call_sites
            [where py = ?W and name = ?wname and st = init_state and k = 2,
             OF wp wp wr2 wr3 wr4 s1 s2 s3 w1 w2 3 4 5 6]
    by (simp only: wa wl wc if_True simp_thms)
  show ?thesis using ascii wide by (simp only: simp_thms)
qed

text \<open>
  C3 as the specification words it does not hold of the code: the normalizer does not
  return \<^verbatim>\<open>CCTV1\<close> for the name with \<^verbatim>\<open>HD\<close> in corner brackets (by the theorem it returns
  \<^verbatim>\<open>CCTV1HD\<close>, with the tables of every interpreter that has those of Unicode on ASCII).
\<close>

theorem clean_channel_name_keeps_bracket_text:
  "clean_channel_name ascii_tables (ustr ''CCTV-1 '' @ [0x300C] @ ustr ''HD'' @ [0x300D])
     \<noteq> Inr (ustr ''CCTV1'')"
  by code_simp

section \<open>Delimited lines\<close>

text \<open>
  Claim C4. In \<^verbatim>\<open>parse_txt_lines\<close>, with a category active (\<^verbatim>\<open>current_category\<close> set and
  not empty, its list so far \<open>entries\<close>), a line that is not a \<^verbatim>\<open>#genre#\<close> line and reads
  \<open>n\<close>, a comma, \<open>r\<close> (the comma the first one) appends one pair per \<^verbatim>\<open>#\<close>-separated
  segment of the trimmed \<open>r\<close>, each segment trimmed and empty segments kept, under the
  name \<open>n\<close> trimmed (and normalized when it starts with \<^verbatim>\<open>CCTV\<close>; an exception of the
  normalizer is the exception of the step, and \<open>map_sum id f\<close> applies \<open>f\<close> to a result and
  leaves an exception as it is); a line that is not empty and has no comma appends the
  single pair of the line and the empty string. The lines are those of a text split at
  newlines, so they hold none. The last two conjuncts are the specification's example
  and a line with an empty segment, with the tables of any interpreter.
\<close>

theorem parse_txt_channel_line:
  assumes st: "current_category st = Some category" "category \<noteq> []"
              "map_of (channels st) category = Some entries"
    and line: "strip raw = n @ [comma] @ r" "comma \<notin> set n" "newline \<notin> set (strip raw)"
              "\<not> contains (ustr ''#genre#'') (strip raw)"
    and bare: "comma \<notin> set (strip bare)" "strip bare \<noteq> []"
              "\<not> contains (ustr ''#genre#'') (strip bare)"
  shows "map_sum id (\<lambda>st'. map_of (channels st') category) (parse_txt_step py st raw)
           = map_sum id
               (\<lambda>name. Some (entries @ map (\<lambda>segment. (name, strip segment))
                                         (split_on hash (strip r))))
               (clean_if_cctv py (strip n))
         \<and> map_sum id (\<lambda>st'. map_of (channels st') category) (parse_txt_step py st bare)
             = Inr (Some (entries @ [(strip bare, [])]))
         \<and> parse_txt_lines py [ustr ''News,#genre#'', ustr ''NewsChannel,http://a/1#http://a/2'']
             = Inr [(ustr ''News'', [(ustr ''NewsChannel'', ustr ''http://a/1''),
                                    (ustr ''NewsChannel'', ustr ''http://a/2'')])]
         \<and> parse_txt_lines py [ustr ''News,#genre#'', ustr ''X, http://a/1 ## http://a/2'']
             = Inr [(ustr ''News'', [(ustr ''X'', ustr ''http://a/1''), (ustr ''X'', []),
                                    (ustr ''X'', ustr ''http://a/2'')])]"
proof (intro conjI)
  have m: "re_match_txt (strip raw) = Some (n, r)"
    using line(1,2,3) by (rule re_match_txt_comma)
  have "parse_txt_step py st raw
          = map_sum id
              (\<lambda>name. st\<lparr>channels :=
                            od_extend category
                              (map (\<lambda>segment. (name, strip segment)) (split_on hash (strip r)))
                              (channels st),
                          channel_name := Some name\<rparr>)
              (clean_if_cctv py (strip n))"
    unfolding parse_txt_step_def Let_def using st(1,2) line(4) m
    by (simp add: foldl_od_append split: sum.splits)
  then show "map_sum id (\<lambda>st'. map_of (channels st') category) (parse_txt_step py st raw)
           = map_sum id
               (\<lambda>name. Some (entries @ map (\<lambda>segment. (name, strip segment))
                                         (split_on hash (strip r))))
               (clean_if_cctv py (strip n))"
    using st(3) by (cases "clean_if_cctv py (strip n)") (simp_all add: map_of_od_extend)
next
  have m: "re_match_txt (strip bare) = None"
    using bare(1) by (rule re_match_txt_no_comma)
  have "parse_txt_step py st bare
          = Inr (st\<lparr>channels := od_extend category [(strip bare, [])] (channels st)\<rparr>)"
    unfolding parse_txt_step_def Let_def using st(1,2) bare m
    by (simp add: od_append_def)
  then show "map_sum id (\<lambda>st'. map_of (channels st') category) (parse_txt_step py st bare)
             = Inr (Some (entries @ [(strip bare, [])]))"
    using st(3) by (simp add: map_of_od_extend)
next
  show "parse_txt_lines py [ustr ''News,#genre#'', ustr ''NewsChannel,http://a/1#http://a/2'']
             = Inr [(ustr ''News'', [(ustr ''NewsChannel'', ustr ''http://a/1''),
                                    (ustr ''NewsChannel'', ustr ''http://a/2'')])]"
    by code_simp
next
  show "parse_txt_lines py [ustr ''News,#genre#'', ustr ''X, http://a/1 ## http://a/2'']
             = Inr [(ustr ''News'', [(ustr ''X'', ustr ''http://a/1''), (ustr ''X'', []),
                                    (ustr ''X'', ustr ''http://a/2'')])]"
    by code_simp
qed

text \<open>
  The theorem in the state the parser has after the line \<^verbatim>\<open>News,#genre#\<close>, at a line naming
  \<^verbatim>\<open>CCTV-01\<close> with two URLs and at the bare line \<^verbatim>\<open>NewsChannel\<close>.
\<close>

theorem parse_txt_channel_line_witness:
  "parse_txt_step ascii_tables init_state (ustr ''News,#genre#'')
     = Inr \<lparr>channels = [(ustr ''News'', [])], current_category = Some (ustr ''News''),
            channel_name = None\<rparr>
   \<and> map_sum id (\<lambda>st'. map_of (channels st') (ustr ''News''))
       (parse_txt_step ascii_tables
          \<lparr>channels = [(ustr ''News'', [])], current_category = Some (ustr ''News''),
           channel_name = None\<rparr>
          (ustr ''CCTV-01,http://a/1#http://a/2''))
     = Inr (Some [(ustr ''CCTV1'', ustr ''http://a/1''), (ustr ''CCTV1'', ustr ''http://a/2'')])
   \<and> map_sum id (\<lambda>st'. map_of (channels st') (ustr ''News''))
       (parse_txt_step ascii_tables
          \<lparr>channels = [(ustr ''News'', [])], current_category = Some (ustr ''News''),
           channel_name = None\<rparr>
          (ustr ''NewsChannel''))
     = Inr (Some [(ustr ''NewsChannel'', [])])"
proof -
  let ?st = "\<lparr>channels = [(ustr ''News'', [])], current_category = Some (ustr ''News''),
              channel_name = None\<rparr>"
  let ?raw = "ustr ''CCTV-01,http://a/1#http://a/2''"
  let ?bare = "ustr ''NewsChannel''"
  have 0: "parse_txt_step ascii_tables init_state (ustr ''News,#genre#'') = Inr ?st" by code_simp
  have 1: "current_category ?st = Some (ustr ''News'')" by simp
  have 2: "ustr ''News'' \<noteq> []" by code_simp
  have 3: "map_of (channels ?st) (ustr ''News'') = Some []" by simp
  have 4: "strip ?raw = ustr ''CCTV-01'' @ [comma] @ ustr ''http://a/1#http://a/2''" by code_simp
  have 5: "comma \<notin> set (ustr ''CCTV-01'')" by code_simp
  have 6: "newline \<notin> set (strip ?raw)" by code_simp
  have 7: "\<not> contains (ustr ''#genre#'') (strip ?raw)" by code_simp
  have 8: "comma \<notin> set (strip ?bare)" by code_simp
  have 9: "strip ?bare \<noteq> []" by code_simp
  have 10: "\<not> contains (ustr ''#genre#'') (strip ?bare)" by code_simp
  have a: "map_sum id
               (\<lambda>name. Some ([] @ map (\<lambda>segment. (name, strip segment))
                                    (split_on hash (strip (ustr ''http://a/1#http://a/2'')))))
               (clean_if_cctv ascii_tables (strip (ustr ''CCTV-01'')))
           = Inr (Some [(ustr ''CCTV1'', ustr ''http://a/1''), (ustr ''CCTV1'', ustr ''http://a/2'')])"
    by code_simp
  have b: "[] @ [(strip ?bare, [])] = [(ustr ''NewsChannel'', []::pystr)]" by code_simp
  show ?thesis
    using parse_txt_channel_line [where py = ascii_tables, OF 1 2 3 4 5 6 7 8 9 10] 0
    by (simp only: a b)
qed

section \<open>Extended lines\<close>

text \<open>
  Claim C5, as the code has it. The pattern of \<^verbatim>\<open>parse_m3u_lines\<close> is
  \<^verbatim>\<open>group-title="(.*?)",(.*)\<close>: on an \<^verbatim>\<open>#EXTINF\<close> line that reads \<open>pre\<close>, the first
  \<^verbatim>\<open>group-title="\<close> of the line, \<open>g\<close>, the first \<^verbatim>\<open>",\<close> after it, \<open>rest\<close>, the category is
  \<open>g\<close> trimmed and the raw channel name is the whole of \<open>rest\<close> trimmed, commas included
  (normalized when it starts with \<^verbatim>\<open>CCTV\<close>; an exception of the normalizer is the
  exception of the step, and \<open>map_sum id f\<close> applies \<open>f\<close> to a result and leaves an
  exception as it is). The category is registered with an empty list at once, unless
  the dictionary has it. The next two conjuncts are the specification's example, with
  its URL line and before it, for every interpreter with the tables of Unicode on ASCII;
  the last one is a line with a comma in the name, for any interpreter.
\<close>

theorem parse_m3u_extinf_line:
  assumes "startswith (strip raw) (ustr ''#EXTINF'')"
      and "strip raw = pre @ group_title @ g @ [dquote, comma] @ rest"
      and "\<not> contains group_title (pre @ butlast group_title)"
      and "\<not> contains [dquote, comma] g" and "newline \<notin> set g" and "newline \<notin> set rest"
  shows "map_sum id current_category (parse_m3u_step py st raw)
           = map_sum id (\<lambda>name. Some (strip g))
               (if startswith (strip rest) (ustr ''CCTV'') then clean_channel_name py (strip rest)
                else Inr (strip rest))
       \<and> map_sum id channel_name (parse_m3u_step py st raw)
           = map_sum id Some
               (if startswith (strip rest) (ustr ''CCTV'') then clean_channel_name py (strip rest)
                else Inr (strip rest))
       \<and> map_sum id channels (parse_m3u_step py st raw)
           = map_sum id
               (\<lambda>name. if strip g \<in> set (map fst (channels st)) then channels st
                        else channels st @ [(strip g, [])])
               (if startswith (strip rest) (ustr ''CCTV'') then clean_channel_name py (strip rest)
                else Inr (strip rest))
       \<and> (ascii_interp py \<longrightarrow>
            parse_m3u_lines py
              [ustr ''#EXTINF:-1 group-title='' @ [dquote] @ ustr ''News'' @ [dquote] @ ustr '',CCTV01'',
               ustr ''http://x/1'']
             = Inr [(ustr ''News'', [(ustr ''CCTV1'', ustr ''http://x/1'')])]
          \<and> parse_m3u_lines py
              [ustr ''#EXTINF:-1 group-title='' @ [dquote] @ ustr ''News'' @ [dquote] @ ustr '',CCTV01'']
             = Inr [(ustr ''News'', [])])
       \<and> parse_m3u_lines py
            [ustr ''#EXTINF:-1 group-title='' @ [dquote] @ ustr ''News'' @ [dquote] @ ustr '',Sports,HD'',
             ustr ''http://x/1'']
           = Inr [(ustr ''News'', [(ustr ''Sports,HD'', ustr ''http://x/1'')])]"
proof -
  let ?norm = "if startswith (strip rest) (ustr ''CCTV'') then clean_channel_name py (strip rest)
               else Inr (strip rest)"
  let ?l1 = "ustr ''#EXTINF:-1 group-title='' @ [dquote] @ ustr ''News'' @ [dquote] @ ustr '',CCTV01''"
  have "match_title_groups (g @ dquote # comma # rest) = Some (g, takeWhile (\<lambda>x. x \<noteq> newline) rest)"
    using assms(5,4) by (rule match_title_groups_lazy)
  moreover have "takeWhile (\<lambda>x. x \<noteq> newline) rest = rest"
    using assms(6) by (auto simp: takeWhile_eq_all_conv)
  ultimately have "re_search_group_title (pre @ group_title @ g @ dquote # comma # rest) = Some (g, rest)"
    using assms(3) by (simp add: re_search_group_title_first)
  then have m: "re_search_group_title (strip raw) = Some (g, rest)"
    using assms(2) by simp
  have step: "parse_m3u_step py st raw =
      map_sum id
        (\<lambda>name. st\<lparr>channels := (if \<not> od_contains (strip g) (channels st)
                                  then od_set (strip g) [] (channels st) else channels st),
                    current_category := Some (strip g),
                    channel_name := Some name\<rparr>)
        ?norm"
    unfolding parse_m3u_step_def Let_def using assms(1) m
    by (simp add: clean_if_cctv_eq split: sum.splits)
  have 1: "map_sum id current_category (parse_m3u_step py st raw)
             = map_sum id (\<lambda>name. Some (strip g)) ?norm"
    unfolding step by (cases ?norm) simp_all
  have 2: "map_sum id channel_name (parse_m3u_step py st raw) = map_sum id Some ?norm"
    unfolding step by (cases ?norm) simp_all
  have 3: "map_sum id channels (parse_m3u_step py st raw)
           = map_sum id
               (\<lambda>name. if strip g \<in> set (map fst (channels st)) then channels st
                        else channels st @ [(strip g, [])])
               ?norm"
    unfolding step by (cases ?norm) (simp_all add: od_contains_def od_set_new)
  have 4: "parse_m3u_lines py [?l1, ustr ''http://x/1'']
             = Inr [(ustr ''News'', [(ustr ''CCTV1'', ustr ''http://x/1'')])]
          \<and> parse_m3u_lines py [?l1] = Inr [(ustr ''News'', [])]"
    if py: "ascii_interp py"
  proof -
    have a: "\<forall>l \<in> set [?l1, ustr ''http://x/1'']. (\<forall>c \<in> set l. 0 \<le> c \<and> c \<le> 0x7F) \<and> length l \<le> 640"
      by code_simp
    have b: "\<forall>l \<in> set [?l1]. (\<forall>c \<in> set l. 0 \<le> c \<and> c \<le> 0x7F) \<and> length l \<le> 640"
      by code_simp
    have c: "parse_m3u_lines ascii_tables [?l1, ustr ''http://x/1'']
               = Inr [(ustr ''News'', [(ustr ''CCTV1'', ustr ''http://x/1'')])]"
      by code_simp
    have d: "parse_m3u_lines ascii_tables [?l1] = Inr [(ustr ''News'', [])]"
      by code_simp
    show ?thesis
      using parse_m3u_lines_ascii [OF py a] parse_m3u_lines_ascii [OF py b]
      by (simp only: c d)
  qed
  have 5: "parse_m3u_lines py
            [ustr ''#EXTINF:-1 group-title='' @ [dquote] @ ustr ''News'' @ [dquote] @ ustr '',Sports,HD'',
             ustr ''http://x/1'']
           = Inr [(ustr ''News'', [(ustr ''Sports,HD'', ustr ''http://x/1'')])]"
    by code_simp
  show ?thesis using 1 2 3 4 5 by blast
qed

text \<open>
  The theorem at an \<^verbatim>\<open>#EXTINF\<close> line with an attribute before \<^verbatim>\<open>group-title\<close> and a comma
  in the name, and at the specification's example.
\<close>

theorem parse_m3u_extinf_line_witness:
  "map_sum id current_category
     (parse_m3u_step ascii_tables init_state
        (ustr ''#EXTINF:-1 tvg-name='' @ [dquote] @ ustr ''a'' @ [dquote] @ ustr '' group-title=''
           @ [dquote] @ ustr ''News'' @ [dquote] @ ustr '',CCTV01,HD''))
     = Inr (Some (ustr ''News''))
   \<and> map_sum id channel_name
     (parse_m3u_step ascii_tables init_state
        (ustr ''#EXTINF:-1 tvg-name='' @ [dquote] @ ustr ''a'' @ [dquote] @ ustr '' group-title=''
           @ [dquote] @ ustr ''News'' @ [dquote] @ ustr '',CCTV01,HD''))
     = Inr (Some (ustr ''CCTV1,HD''))
   \<and> map_sum id channels
     (parse_m3u_step ascii_tables init_state
        (ustr ''#EXTINF:-1 tvg-name='' @ [dquote] @ ustr ''a'' @ [dquote] @ ustr '' group-title=''
           @ [dquote] @ ustr ''News'' @ [dquote] @ ustr '',CCTV01,HD''))
     = Inr [(ustr ''News'', [])]
   \<and> parse_m3u_lines ascii_tables
       [ustr ''#EXTINF:-1 group-title='' @ [dquote] @ ustr ''News'' @ [dquote] @ ustr '',CCTV01'',
        ustr ''http://x/1'']
     = Inr [(ustr ''News'', [(ustr ''CCTV1'', ustr ''http://x/1'')])]"
proof -
  let ?pre = "ustr ''#EXTINF:-1 tvg-name='' @ [dquote] @ ustr ''a'' @ [dquote] @ ustr '' ''"
  let ?raw = "ustr ''#EXTINF:-1 tvg-name='' @ [dquote] @ ustr ''a'' @ [dquote] @ ustr '' group-title=''
           @ [dquote] @ ustr ''News'' @ [dquote] @ ustr '',CCTV01,HD''"
  let ?norm = "if startswith (strip (ustr ''CCTV01,HD'')) (ustr ''CCTV'')
               then clean_channel_name ascii_tables (strip (ustr ''CCTV01,HD''))
               else Inr (strip (ustr ''CCTV01,HD''))"
  have 1: "startswith (strip ?raw) (ustr ''#EXTINF'')" by code_simp
  have 2: "strip ?raw = ?pre @ group_title @ ustr ''News'' @ [dquote, comma] @ ustr ''CCTV01,HD''"
    by code_simp
  have 3: "\<not> contains group_title (?pre @ butlast group_title)" by code_simp
  have 4: "\<not> contains [dquote, comma] (ustr ''News'')" by code_simp
  have 5: "newline \<notin> set (ustr ''News'')" by code_simp
  have 6: "newline \<notin> set (ustr ''CCTV01,HD'')" by code_simp
  have a: "map_sum id (\<lambda>name. Some (strip (ustr ''News''))) ?norm = Inr (Some (ustr ''News''))"
    by code_simp
  have b: "map_sum id Some ?norm = Inr (Some (ustr ''CCTV1,HD''))" by code_simp
  have c: "map_sum id
             (\<lambda>name. if strip (ustr ''News'') \<in> set (map fst (channels init_state))
                      then channels init_state
                      else channels init_state @ [(strip (ustr ''News''), [])])
             ?norm
           = Inr [(ustr ''News'', [])]"
    by code_simp
  have d: "ascii_interp ascii_tables" by (rule ascii_interp_ascii_tables)
  show ?thesis
    using parse_m3u_extinf_line [where py = ascii_tables and st = init_state, OF 1 2 3 4 5 6] d
    by (simp only: a b c simp_thms)
qed

text \<open>
  C5 as the specification words it does not hold of the code: the name is not the text
  after the last comma of the line. With \<^verbatim>\<open>Sports,HD\<close> after the attribute the parser stores
  \<^verbatim>\<open>Sports,HD\<close>, not \<^verbatim>\<open>HD\<close>.
\<close>

theorem parse_m3u_name_after_first_comma:
  "parse_m3u_lines ascii_tables
     [ustr ''#EXTINF:-1 group-title='' @ [dquote] @ ustr ''News'' @ [dquote] @ ustr '',Sports,HD'',
      ustr ''http://x/1'']
     = Inr [(ustr ''News'', [(ustr ''Sports,HD'', ustr ''http://x/1'')])]
   \<and> parse_m3u_lines ascii_tables
     [ustr ''#EXTINF:-1 group-title='' @ [dquote] @ ustr ''News'' @ [dquote] @ ustr '',Sports,HD'',
      ustr ''http://x/1'']
     \<noteq> Inr [(ustr ''News'', [(ustr ''HD'', ustr ''http://x/1'')])]"
  by code_simp

text \<open>A run of URL lines: each is appended under the category and name in force.\<close>

lemma parse_m3u_step_urls:
  assumes "current_category st = Some category" "category \<noteq> []"
      "channel_name st = Some name" "name \<noteq> []"
      "\<And>u. u \<in> set urls \<Longrightarrow> strip u \<noteq> [] \<and> \<not> startswith (strip u) (ustr ''#'')"
  shows "for_each (parse_m3u_step py) st urls
           = Inr (st\<lparr>channels := od_extend category (map (\<lambda>u. (name, strip u)) urls) (channels st)\<rparr>)"
  using assms
proof (induction urls arbitrary: st)
  case Nil
  show ?case by (simp add: od_extend_Nil)
next
  case (Cons u urls)
  let ?st = "st\<lparr>channels := od_append category (name, strip u) (channels st)\<rparr>"
  have u: "strip u \<noteq> []" "\<not> startswith (strip u) (ustr ''#'')" using Cons.prems(5) by auto
  have s: "parse_m3u_step py st u = Inr ?st"
    using Cons.prems(1-4) u by (rule parse_m3u_step_url)
  have "for_each (parse_m3u_step py) ?st urls
          = Inr (?st\<lparr>channels := od_extend category (map (\<lambda>u. (name, strip u)) urls) (channels ?st)\<rparr>)"
    using Cons.prems by (intro Cons.IH) auto
  then show ?case by (simp add: s od_append_def od_extend_twice)
qed

text \<open>
  Claim C10. In \<^verbatim>\<open>parse_m3u_lines\<close>, with a category and a name in force (both set and
  not empty, the category's list so far \<open>entries\<close>), a run of lines that are not empty
  and do not start with \<^verbatim>\<open>#\<close> raises nothing and every line of it is appended as a pair of
  that name and the trimmed line, so \<open>k\<close> lines give \<open>k\<close> pairs, and category and name
  stay in force after the run; an \<^verbatim>\<open>#EXTINF\<close> line on which the pattern does not match
  leaves the whole state as it is. In the example the third URL comes after such a line
  and is stored under the earlier name.
\<close>

theorem parse_m3u_url_lines:
  assumes "current_category st = Some category" and "category \<noteq> []"
      and "channel_name st = Some name" and "name \<noteq> []"
      and "map_of (channels st) category = Some entries"
      and "\<And>u. u \<in> set urls \<Longrightarrow> strip u \<noteq> [] \<and> \<not> startswith (strip u) (ustr ''#'')"
      and "startswith (strip raw) (ustr ''#EXTINF'')" and "re_search_group_title (strip raw) = None"
  shows "map_sum id (\<lambda>st'. map_of (channels st') category) (for_each (parse_m3u_step py) st urls)
           = Inr (Some (entries @ map (\<lambda>u. (name, strip u)) urls))
       \<and> map_sum id current_category (for_each (parse_m3u_step py) st urls) = Inr (Some category)
       \<and> map_sum id channel_name (for_each (parse_m3u_step py) st urls) = Inr (Some name)
       \<and> parse_m3u_step py st raw = Inr st
       \<and> (ascii_interp py \<longrightarrow>
            parse_m3u_lines py
              [ustr ''#EXTINF:-1 group-title='' @ [dquote] @ ustr ''News'' @ [dquote] @ ustr '',CCTV01'',
               ustr ''http://x/1'', ustr ''http://x/2'', ustr ''#EXTINF:-1,Other'', ustr ''http://x/3'']
             = Inr [(ustr ''News'', [(ustr ''CCTV1'', ustr ''http://x/1''),
                                    (ustr ''CCTV1'', ustr ''http://x/2''),
                                    (ustr ''CCTV1'', ustr ''http://x/3'')])])"
proof -
  let ?ls = "[ustr ''#EXTINF:-1 group-title='' @ [dquote] @ ustr ''News'' @ [dquote] @ ustr '',CCTV01'',
               ustr ''http://x/1'', ustr ''http://x/2'', ustr ''#EXTINF:-1,Other'', ustr ''http://x/3'']"
  have f: "for_each (parse_m3u_step py) st urls
           = Inr (st\<lparr>channels := od_extend category (map (\<lambda>u. (name, strip u)) urls) (channels st)\<rparr>)"
    using assms(1-4,6) by (rule parse_m3u_step_urls)
  have 1: "map_sum id (\<lambda>st'. map_of (channels st') category) (for_each (parse_m3u_step py) st urls)
           = Inr (Some (entries @ map (\<lambda>u. (name, strip u)) urls))"
    using assms(5) by (simp add: f map_of_od_extend)
  have 2: "map_sum id current_category (for_each (parse_m3u_step py) st urls) = Inr (Some category)"
    using assms(1) by (simp add: f)
  have 3: "map_sum id channel_name (for_each (parse_m3u_step py) st urls) = Inr (Some name)"
    using assms(3) by (simp add: f)
  have 4: "parse_m3u_step py st raw = Inr st"
    unfolding parse_m3u_step_def Let_def using assms(7,8) by simp
  have 5: "parse_m3u_lines py ?ls
             = Inr [(ustr ''News'', [(ustr ''CCTV1'', ustr ''http://x/1''),
                                    (ustr ''CCTV1'', ustr ''http://x/2''),
                                    (ustr ''CCTV1'', ustr ''http://x/3'')])]"
    if py: "ascii_interp py"
  proof -
    have a: "\<forall>l \<in> set ?ls. (\<forall>c \<in> set l. 0 \<le> c \<and> c \<le> 0x7F) \<and> length l \<le> 640"
      by code_simp
    have c: "parse_m3u_lines ascii_tables ?ls
             = Inr [(ustr ''News'', [(ustr ''CCTV1'', ustr ''http://x/1''),
                                    (ustr ''CCTV1'', ustr ''http://x/2''),
                                    (ustr ''CCTV1'', ustr ''http://x/3'')])]"
      by code_simp
    show ?thesis using parse_m3u_lines_ascii [OF py a] by (simp only: c)
  qed
  show ?thesis using 1 2 3 4 5 by blast
qed

text \<open>
  The theorem in the state after the specification's \<^verbatim>\<open>#EXTINF\<close> line, at two URL lines
  and at an \<^verbatim>\<open>#EXTINF\<close> line without \<^verbatim>\<open>group-title\<close>.
\<close>

theorem parse_m3u_url_lines_witness:
  "parse_m3u_step ascii_tables init_state
     (ustr ''#EXTINF:-1 group-title='' @ [dquote] @ ustr ''News'' @ [dquote] @ ustr '',CCTV01'')
     = Inr \<lparr>channels = [(ustr ''News'', [])], current_category = Some (ustr ''News''),
            channel_name = Some (ustr ''CCTV1'')\<rparr>
   \<and> map_sum id (\<lambda>st'. map_of (channels st') (ustr ''News''))
       (for_each (parse_m3u_step ascii_tables)
          \<lparr>channels = [(ustr ''News'', [])], current_category = Some (ustr ''News''),
           channel_name = Some (ustr ''CCTV1'')\<rparr>
          [ustr ''http://x/1'', ustr '' http://x/2''])
     = Inr (Some [(ustr ''CCTV1'', ustr ''http://x/1''), (ustr ''CCTV1'', ustr ''http://x/2'')])
   \<and> parse_m3u_step ascii_tables
       \<lparr>channels = [(ustr ''News'', [])], current_category = Some (ustr ''News''),
        channel_name = Some (ustr ''CCTV1'')\<rparr>
       (ustr ''#EXTINF:-1,Other'')
     = Inr \<lparr>channels = [(ustr ''News'', [])], current_category = Some (ustr ''News''),
            channel_name = Some (ustr ''CCTV1'')\<rparr>"
proof -
  let ?st = "\<lparr>channels = [(ustr ''News'', [])], current_category = Some (ustr ''News''),
              channel_name = Some (ustr ''CCTV1'')\<rparr>"
  have 0: "parse_m3u_step ascii_tables init_state
             (ustr ''#EXTINF:-1 group-title='' @ [dquote] @ ustr ''News'' @ [dquote] @ ustr '',CCTV01'')
           = Inr ?st" by code_simp
  have 1: "current_category ?st = Some (ustr ''News'')" by simp
  have 2: "ustr ''News'' \<noteq> []" by code_simp
  have 3: "channel_name ?st = Some (ustr ''CCTV1'')" by simp
  have 4: "ustr ''CCTV1'' \<noteq> []" by code_simp
  have 5: "map_of (channels ?st) (ustr ''News'') = Some []" by simp
  have a: "strip (ustr ''http://x/1'') \<noteq> [] \<and> \<not> startswith (strip (ustr ''http://x/1'')) (ustr ''#'')"
    by code_simp
  have b: "strip (ustr '' http://x/2'') \<noteq> [] \<and> \<not> startswith (strip (ustr '' http://x/2'')) (ustr ''#'')"
    by code_simp
  have 6: "\<And>u. u \<in> set [ustr ''http://x/1'', ustr '' http://x/2'']
             \<Longrightarrow> strip u \<noteq> [] \<and> \<not> startswith (strip u) (ustr ''#'')"
    using a b by auto
  have 7: "startswith (strip (ustr ''#EXTINF:-1,Other'')) (ustr ''#EXTINF'')" by code_simp
  have 8: "re_search_group_title (strip (ustr ''#EXTINF:-1,Other'')) = None" by code_simp
  have c: "[] @ map (\<lambda>u. (ustr ''CCTV1'', strip u)) [ustr ''http://x/1'', ustr '' http://x/2'']
           = [(ustr ''CCTV1'', ustr ''http://x/1''), (ustr ''CCTV1'', ustr ''http://x/2'')]"
    by code_simp
  show ?thesis
    using parse_m3u_url_lines [where py = ascii_tables, OF 1 2 3 4 5 6 7 8] 0
    by (simp only: c)
qed

section \<open>Template lines\<close>

lemma map_of_od_set: "map_of (od_set k v d) k = Some v"
  by (induction d) auto

lemma keys_od_set:
  "map fst (od_set k v d) = (if k \<in> set (map fst d) then map fst d else map fst d @ [k])"
  by (induction d) (auto simp: rev_image_eqI)

text \<open>
  Claim C9, as the code has it. \<^verbatim>\<open>parse_template\<close> tests \<^verbatim>\<open>line.startswith("#")\<close> before
  it looks for the marker, so a trimmed line that is empty or starts with \<^verbatim>\<open>#\<close> is
  ignored also when it contains \<^verbatim>\<open>#genre#\<close>. Of the other lines, one that contains
  \<^verbatim>\<open>#genre#\<close> makes its trimmed text before the first comma the current category, with an
  empty list (a new category goes last, one that is present keeps its place); any other
  line, while the current category is set and not empty, appends its trimmed text before
  the first comma to the list of the current category and changes no key. The last
  conjunct is a whole template.
\<close>

theorem parse_template_step_cases:
  assumes ignored: "strip skipped = [] \<or> startswith (strip skipped) (ustr ''#'')"
    and genre: "strip header \<noteq> []" "\<not> startswith (strip header) (ustr ''#'')"
               "contains (ustr ''#genre#'') (strip header)"
    and chan: "strip raw \<noteq> []" "\<not> startswith (strip raw) (ustr ''#'')"
              "\<not> contains (ustr ''#genre#'') (strip raw)"
              "snd st = Some category" "category \<noteq> []" "map_of (fst st) category = Some names"
  shows "parse_template_step st skipped = st
       \<and> snd (parse_template_step st header) = Some (strip (takeWhile (\<lambda>c. c \<noteq> comma) (strip header)))
       \<and> map_of (fst (parse_template_step st header)) (strip (takeWhile (\<lambda>c. c \<noteq> comma) (strip header)))
           = Some []
       \<and> map fst (fst (parse_template_step st header))
           = (if strip (takeWhile (\<lambda>c. c \<noteq> comma) (strip header)) \<in> set (map fst (fst st))
              then map fst (fst st)
              else map fst (fst st) @ [strip (takeWhile (\<lambda>c. c \<noteq> comma) (strip header))])
       \<and> snd (parse_template_step st raw) = Some category
       \<and> map_of (fst (parse_template_step st raw)) category
           = Some (names @ [strip (takeWhile (\<lambda>c. c \<noteq> comma) (strip raw))])
       \<and> map fst (fst (parse_template_step st raw)) = map fst (fst st)
       \<and> parse_template
            [ustr ''News,#genre#'', ustr ''CCTV1,http://t/1'', [], ustr ''# note'', ustr ''CCTV2'',
             ustr ''#Hidden,#genre#'', ustr ''Sports,#genre#'', ustr ''A'']
           = [(ustr ''News'', [ustr ''CCTV1'', ustr ''CCTV2'']), (ustr ''Sports'', [ustr ''A''])]"
proof -
  have 1: "parse_template_step st skipped = st"
    unfolding parse_template_step_def Let_def using ignored by auto
  have h: "parse_template_step st header
             = (od_set (strip (takeWhile (\<lambda>c. c \<noteq> comma) (strip header))) [] (fst st),
                Some (strip (takeWhile (\<lambda>c. c \<noteq> comma) (strip header))))"
    unfolding parse_template_step_def Let_def using genre by (simp add: split0_takeWhile)
  have r: "parse_template_step st raw
             = (od_append category (strip (takeWhile (\<lambda>c. c \<noteq> comma) (strip raw))) (fst st), snd st)"
    unfolding parse_template_step_def Let_def using chan(1-5) by (simp add: split0_takeWhile)
  have 2: "snd (parse_template_step st header) = Some (strip (takeWhile (\<lambda>c. c \<noteq> comma) (strip header)))"
    by (simp add: h)
  have 3: "map_of (fst (parse_template_step st header)) (strip (takeWhile (\<lambda>c. c \<noteq> comma) (strip header)))
           = Some []"
    by (simp add: h map_of_od_set)
  have 4: "map fst (fst (parse_template_step st header))
           = (if strip (takeWhile (\<lambda>c. c \<noteq> comma) (strip header)) \<in> set (map fst (fst st))
              then map fst (fst st)
              else map fst (fst st) @ [strip (takeWhile (\<lambda>c. c \<noteq> comma) (strip header))])"
    by (simp only: h fst_conv keys_od_set)
  have 5: "snd (parse_template_step st raw) = Some category"
    using chan(4) by (simp add: r)
  have 6: "map_of (fst (parse_template_step st raw)) category
           = Some (names @ [strip (takeWhile (\<lambda>c. c \<noteq> comma) (strip raw))])"
    using chan(6) by (simp add: r od_append_def map_of_od_extend)
  have 7: "map fst (fst (parse_template_step st raw)) = map fst (fst st)"
    by (simp add: r od_append_def keys_od_extend)
  have 8: "parse_template
            [ustr ''News,#genre#'', ustr ''CCTV1,http://t/1'', [], ustr ''# note'', ustr ''CCTV2'',
             ustr ''#Hidden,#genre#'', ustr ''Sports,#genre#'', ustr ''A'']
           = [(ustr ''News'', [ustr ''CCTV1'', ustr ''CCTV2'']), (ustr ''Sports'', [ustr ''A''])]"
    by code_simp
  show ?thesis using 1 2 3 4 5 6 7 8 by blast
qed

text \<open>
  The theorem in the state after \<^verbatim>\<open>News,#genre#\<close> and \<^verbatim>\<open>CCTV1\<close>, at a \<^verbatim>\<open>#\<close> line with the
  marker, a category line and a channel line.
\<close>

theorem parse_template_step_cases_witness:
  "parse_template_step ([(ustr ''News'', [ustr ''CCTV1''])], Some (ustr ''News'')) (ustr ''#Hidden,#genre#'')
     = ([(ustr ''News'', [ustr ''CCTV1''])], Some (ustr ''News''))
   \<and> parse_template_step ([(ustr ''News'', [ustr ''CCTV1''])], Some (ustr ''News'')) (ustr ''Sports,#genre#'')
     = ([(ustr ''News'', [ustr ''CCTV1'']), (ustr ''Sports'', [])], Some (ustr ''Sports''))
   \<and> parse_template_step ([(ustr ''News'', [ustr ''CCTV1''])], Some (ustr ''News'')) (ustr ''CCTV2,x'')
     = ([(ustr ''News'', [ustr ''CCTV1'', ustr ''CCTV2''])], Some (ustr ''News''))"
proof -
  let ?st = "([(ustr ''News'', [ustr ''CCTV1''])], Some (ustr ''News''))"
  have 1: "strip (ustr ''#Hidden,#genre#'') = [] \<or> startswith (strip (ustr ''#Hidden,#genre#'')) (ustr ''#'')"
    by code_simp
  have 2: "strip (ustr ''Sports,#genre#'') \<noteq> []" by code_simp
  have 3: "\<not> startswith (strip (ustr ''Sports,#genre#'')) (ustr ''#'')" by code_simp
  have 4: "contains (ustr ''#genre#'') (strip (ustr ''Sports,#genre#''))" by code_simp
  have 5: "strip (ustr ''CCTV2,x'') \<noteq> []" by code_simp
  have 6: "\<not> startswith (strip (ustr ''CCTV2,x'')) (ustr ''#'')" by code_simp
  have 7: "\<not> contains (ustr ''#genre#'') (strip (ustr ''CCTV2,x''))" by code_simp
  have 8: "snd ?st = Some (ustr ''News'')" by simp
  have 9: "ustr ''News'' \<noteq> []" by code_simp
  have 10: "map_of (fst ?st) (ustr ''News'') = Some [ustr ''CCTV1'']" by simp
  have a: "parse_template_step ?st (ustr ''#Hidden,#genre#'') = ?st"
    using parse_template_step_cases [OF 1 2 3 4 5 6 7 8 9 10] by blast
  have b: "parse_template_step ?st (ustr ''Sports,#genre#'')
     = ([(ustr ''News'', [ustr ''CCTV1'']), (ustr ''Sports'', [])], Some (ustr ''Sports''))"
    by code_simp
  have c: "parse_template_step ?st (ustr ''CCTV2,x'')
     = ([(ustr ''News'', [ustr ''CCTV1'', ustr ''CCTV2''])], Some (ustr ''News''))"
    by code_simp
  show ?thesis using a b c by blast
qed

text \<open>
  C9 as the specification words it does not hold of the code: a line that starts with
  \<^verbatim>\<open>#\<close> and contains \<^verbatim>\<open>#genre#\<close> starts no category, and the channel after it is
  dropped.
\<close>

theorem parse_template_hash_genre_line_ignored:
  "parse_template [ustr ''#News,#genre#'', ustr ''CCTV1''] = []
   \<and> parse_template [ustr ''#News,#genre#'', ustr ''CCTV1''] \<noteq> [(ustr ''#News'', [ustr ''CCTV1''])]"
  by code_simp

section \<open>Format detection\<close>

lemma distinct_od_set: "distinct (map fst d) \<Longrightarrow> distinct (map fst (od_set k v d))"
  by (simp add: keys_od_set)

lemma od_update_distinct:
  "distinct (map fst (acc @ d)) \<Longrightarrow> od_update acc d = acc @ d"
proof (induction d arbitrary: acc)
  case Nil
  show ?case by (simp add: od_update_def)
next
  case (Cons kv d)
  obtain k v where kv: "kv = (k, v)" by (cases kv)
  have new: "k \<notin> set (map fst acc)" using Cons.prems kv by auto
  have "distinct (map fst ((acc @ [(k, v)]) @ d))" using Cons.prems kv by simp
  then have "od_update (acc @ [(k, v)]) d = (acc @ [(k, v)]) @ d" by (rule Cons.IH)
  then show ?case using new kv by (simp add: od_update_def od_set_new)
qed

lemma state_ok_init: "state_ok init_state"
  by (simp add: state_ok_def init_state_def)

lemma keys_od_append: "map fst (od_append k x d) = map fst d"
  by (simp add: od_append_def keys_od_extend)

lemma od_set_key_mem: "k \<in> fst ` set (od_set k v d)"
proof -
  have "k \<in> set (map fst (od_set k v d))" by (simp add: keys_od_set)
  then show ?thesis by simp
qed

lemma parse_m3u_step_ok:
  assumes "state_ok st" "parse_m3u_step py st raw = Inr st'"
  shows "state_ok st'"
proof (cases "startswith (strip raw) (ustr ''#EXTINF'')")
  case True
  show ?thesis
  proof (cases "re_search_group_title (strip raw)")
    case None
    then have "parse_m3u_step py st raw = Inr st" using True by (simp add: parse_m3u_step_def)
    then show ?thesis using assms by simp
  next
    case (Some g)
    obtain g1 g2 where g: "g = (g1, g2)" by (cases g)
    obtain name where
      "st' = st\<lparr>channels := (if \<not> od_contains (strip g1) (channels st)
                              then od_set (strip g1) [] (channels st) else channels st),
                 current_category := Some (strip g1),
                 channel_name := Some name\<rparr>"
      using True Some g assms(2) by (auto simp: parse_m3u_step_def Let_def split: sum.splits)
    then show ?thesis
      using assms(1) by (simp add: state_ok_def od_contains_def keys_od_set od_set_key_mem)
  qed
next
  case False
  have "current_category st' = current_category st
        \<and> map fst (channels st') = map fst (channels st)"
    using False assms(2)
    by (auto simp: parse_m3u_step_def Let_def keys_od_append split: option.splits if_splits)
  then show ?thesis unfolding state_ok_def using assms(1) [unfolded state_ok_def] by (simp only:)
qed

lemma parse_txt_step_ok:
  assumes "state_ok st" "parse_txt_step py st raw = Inr st'"
  shows "state_ok st'"
proof (cases "contains (ustr ''#genre#'') (strip raw)")
  case True
  then have "st' =
          st\<lparr>channels := od_set (strip (split0 comma (strip raw))) [] (channels st),
             current_category := Some (strip (split0 comma (strip raw)))\<rparr>"
    using assms(2) by (simp add: parse_txt_step_def Let_def)
  then show ?thesis
    using assms(1) by (simp add: state_ok_def keys_od_set od_set_key_mem)
next
  case False
  have "current_category st' = current_category st
        \<and> map fst (channels st') = map fst (channels st)"
    using False assms(2)
    by (auto simp: parse_txt_step_def Let_def keys_od_append foldl_od_append keys_od_extend
             split: option.splits if_splits sum.splits)
  then show ?thesis unfolding state_ok_def using assms(1) [unfolded state_ok_def] by (simp only:)
qed

lemma for_each_invariant:
  assumes "\<And>st x st'. P st \<Longrightarrow> body st x = Inr st' \<Longrightarrow> P st'"
    and "P st" "for_each body st xs = Inr st'"
  shows "P st'"
  using assms(2,3)
proof (induction xs arbitrary: st)
  case Nil
  then show ?case by simp
next
  case (Cons x xs)
  obtain st1 where s: "body st x = Inr st1" and r: "for_each body st1 xs = Inr st'"
    using Cons.prems(2) by (auto split: sum.splits)
  have "P st1" using Cons.prems(1) s by (rule assms(1))
  then show ?case using r by (rule Cons.IH)
qed

lemma for_each_parse_m3u_ok:
  "state_ok st \<Longrightarrow> for_each (parse_m3u_step py) st lines = Inr st' \<Longrightarrow> state_ok st'"
  by (rule for_each_invariant [where P = state_ok and body = "parse_m3u_step py"])
     (auto intro: parse_m3u_step_ok)

lemma for_each_parse_txt_ok:
  "state_ok st \<Longrightarrow> for_each (parse_txt_step py) st lines = Inr st' \<Longrightarrow> state_ok st'"
  by (rule for_each_invariant [where P = state_ok and body = "parse_txt_step py"])
     (auto intro: parse_txt_step_ok)

lemma parse_m3u_category_present:
  "for_each (parse_m3u_step py) init_state lines = Inr st \<Longrightarrow> current_category st = Some c
     \<Longrightarrow> od_contains c (channels st)"
  using for_each_parse_m3u_ok [OF state_ok_init, of py lines st]
  by (simp add: state_ok_def od_contains_def)

lemma parse_txt_category_present:
  "for_each (parse_txt_step py) init_state lines = Inr st \<Longrightarrow> current_category st = Some c
     \<Longrightarrow> od_contains c (channels st)"
  using for_each_parse_txt_ok [OF state_ok_init, of py lines st]
  by (simp add: state_ok_def od_contains_def)

lemma parse_m3u_lines_distinct: "parse_m3u_lines py lines = Inr d \<Longrightarrow> distinct (map fst d)"
  using for_each_parse_m3u_ok [OF state_ok_init, of py lines]
  by (auto simp: state_ok_def parse_m3u_lines_def split: sum.splits)

lemma parse_txt_lines_distinct: "parse_txt_lines py lines = Inr d \<Longrightarrow> distinct (map fst d)"
  using for_each_parse_txt_ok [OF state_ok_init, of py lines]
  by (auto simp: state_ok_def parse_txt_lines_def split: sum.splits)

lemma fetch_channels_Some:
  assumes "fetch url = Some text"
  shows "fetch_channels py fetch url =
     (if is_m3u (split_on newline text) then parse_m3u_lines py (split_on newline text)
      else parse_txt_lines py (split_on newline text))"
proof -
  have 1: "(case parse_m3u_lines py lines of Inl e \<Rightarrow> Inl e | Inr parsed \<Rightarrow> Inr (od_update [] parsed))
             = parse_m3u_lines py lines" for lines
    using od_update_distinct [of "[]"] parse_m3u_lines_distinct [of py lines]
    by (cases "parse_m3u_lines py lines") simp_all
  have 2: "(case parse_txt_lines py lines of Inl e \<Rightarrow> Inl e | Inr parsed \<Rightarrow> Inr (od_update [] parsed))
             = parse_txt_lines py lines" for lines
    using od_update_distinct [of "[]"] parse_txt_lines_distinct [of py lines]
    by (cases "parse_txt_lines py lines") simp_all
  show ?thesis using assms by (simp add: fetch_channels_def Let_def 1 2)
qed

text \<open>
  Claim C6. For a source that was fetched, \<^verbatim>\<open>fetch_channels\<close> returns the result of the
  extended parser if one of the first 15 lines of the text (split at newlines) starts
  with \<^verbatim>\<open>#EXTINF\<close>, and the result of the delimited parser otherwise (its dictionary, or
  its exception); so a text none of whose first 15 lines starts with the marker is
  parsed as delimited, wherever else the marker stands. The choice depends on the first
  15 lines only: two texts that agree on them get the same \<^verbatim>\<open>is_m3u\<close>.
\<close>

theorem format_detection:
  assumes "fetch url = Some text"
      and "take 15 (split_on newline text') = take 15 (split_on newline text)"
  shows "fetch_channels py fetch url
           = (if \<exists>line \<in> set (take 15 (split_on newline text)). startswith line (ustr ''#EXTINF'')
              then parse_m3u_lines py (split_on newline text)
              else parse_txt_lines py (split_on newline text))
       \<and> ((\<forall>line \<in> set (take 15 (split_on newline text)). \<not> startswith line (ustr ''#EXTINF''))
            \<longrightarrow> fetch_channels py fetch url = parse_txt_lines py (split_on newline text))
       \<and> is_m3u (split_on newline text') = is_m3u (split_on newline text)"
proof -
  have m: "is_m3u (split_on newline text)
             = (\<exists>line \<in> set (take 15 (split_on newline text)). startswith line (ustr ''#EXTINF''))"
    by (simp add: is_m3u_def list_ex_iff)
  have 1: "fetch_channels py fetch url
           = (if \<exists>line \<in> set (take 15 (split_on newline text)). startswith line (ustr ''#EXTINF'')
              then parse_m3u_lines py (split_on newline text)
              else parse_txt_lines py (split_on newline text))"
    using fetch_channels_Some [of fetch url "text" py] assms(1) by (simp only: m)
  have 2: "(\<forall>line \<in> set (take 15 (split_on newline text)). \<not> startswith line (ustr ''#EXTINF''))
            \<longrightarrow> fetch_channels py fetch url = parse_txt_lines py (split_on newline text)"
    using 1 by auto
  have 3: "is_m3u (split_on newline text') = is_m3u (split_on newline text)"
    using assms(2) by (simp add: is_m3u_def)
  show ?thesis using 1 2 3 by blast
qed

text \<open>
  The theorem at a text of 15 empty lines, an \<^verbatim>\<open>#EXTINF\<close> line as line 16 and a URL line:
  it is parsed as delimited, and detected as the text of the 15 empty lines alone is.
\<close>

theorem format_detection_witness:
  "fetch_channels ascii_tables
     (\<lambda>u. Some (replicate 15 newline
                 @ ustr ''#EXTINF:-1 group-title='' @ [dquote] @ ustr ''A'' @ [dquote] @ ustr '',B''
                 @ [newline] @ ustr ''http://x/1''))
     (ustr ''http://source'')
     = parse_txt_lines ascii_tables
         (split_on newline
            (replicate 15 newline
               @ ustr ''#EXTINF:-1 group-title='' @ [dquote] @ ustr ''A'' @ [dquote] @ ustr '',B''
               @ [newline] @ ustr ''http://x/1''))
   \<and> is_m3u (split_on newline (replicate 15 newline))
     = is_m3u
         (split_on newline
            (replicate 15 newline
               @ ustr ''#EXTINF:-1 group-title='' @ [dquote] @ ustr ''A'' @ [dquote] @ ustr '',B''
               @ [newline] @ ustr ''http://x/1''))"
proof -
  let ?text = "replicate 15 newline
                 @ ustr ''#EXTINF:-1 group-title='' @ [dquote] @ ustr ''A'' @ [dquote] @ ustr '',B''
                 @ [newline] @ ustr ''http://x/1''"
  let ?fetch = "\<lambda>u::pystr. Some ?text"
  have 1: "?fetch (ustr ''http://source'') = Some ?text" by simp
  have 2: "take 15 (split_on newline (replicate 15 newline)) = take 15 (split_on newline ?text)"
    by code_simp
  have 3: "\<forall>line \<in> set (take 15 (split_on newline ?text)). \<not> startswith line (ustr ''#EXTINF'')"
    by code_simp
  show ?thesis
    using format_detection [where py = ascii_tables and fetch = ?fetch
                              and url = "ustr ''http://source''" and text' = "replicate 15 newline",
                            OF 1 2] 3
    by blast
qed

section \<open>Ranking and the rank suffix\<close>

lemma takeWhile_absent: "x \<notin> set s \<Longrightarrow> takeWhile (\<lambda>c. c \<noteq> x) s = s"
  by (induction s) auto

lemma insort_key_bool_skip:
  fixes f :: "'a \<Rightarrow> bool"
  assumes "f x" "\<And>a. a \<in> set as \<Longrightarrow> \<not> f a"
  shows "insort_key f x (as @ bs) = as @ insort_key f x bs"
  using assms(2) by (induction as) (auto simp: assms(1))

lemma insort_key_bool_front:
  fixes f :: "'a \<Rightarrow> bool"
  assumes "\<not> f x \<or> (\<forall>b \<in> set bs. f b)"
  shows "insort_key f x bs = x # bs"
  using assms by (cases bs) auto

lemma sort_key_bool:
  fixes f :: "'a \<Rightarrow> bool"
  shows "sort_key f xs = filter (\<lambda>x. \<not> f x) xs @ filter f xs"
proof (induction xs)
  case Nil
  show ?case by simp
next
  case (Cons x xs)
  show ?case
  proof (cases "f x")
    case True
    have "insort_key f x (filter (\<lambda>x. \<not> f x) xs @ filter f xs)
            = filter (\<lambda>x. \<not> f x) xs @ insort_key f x (filter f xs)"
      using True by (intro insort_key_bool_skip) auto
    also have "insort_key f x (filter f xs) = x # filter f xs"
      by (intro insort_key_bool_front) auto
    finally show ?thesis using True Cons.IH by simp
  next
    case False
    then have "insort_key f x (filter (\<lambda>x. \<not> f x) xs @ filter f xs)
            = x # filter (\<lambda>x. \<not> f x) xs @ filter f xs"
      by (intro insort_key_bool_front) auto
    then show ?thesis using False Cons.IH by simp
  qed
qed

text \<open>
  Claim C7. \<^verbatim>\<open>sort_and_filter_urls\<close> returns the candidates that are not empty, not yet
  written and not blacklisted, in the order of a stable sort by address family: what
  \<^verbatim>\<open>is_ipv6\<close> accepts first when the preference is \<^verbatim>\<open>ipv6\<close>, the rest first otherwise, each
  family in input order. \<^verbatim>\<open>add_url_suffix\<close> keeps the URL up to its first \<^verbatim>\<open>$\<close> and appends
  \<^verbatim>\<open>$LR\<close>, a bullet and \<^verbatim>\<open>IPV6\<close> or \<^verbatim>\<open>IPV4\<close> as \<^verbatim>\<open>is_ipv6\<close> decides on the URL itself, then,
  unless the total is 1, the line tag with the index. The last two conjuncts are the
  specification's example: the ranked order under the preference \<^verbatim>\<open>ipv4\<close>, and what the
  writer puts into the delimited file for it, the indices given after the sort.
\<close>

theorem rank_and_suffix:
  "fst (sort_and_filter_urls cfg urls written)
     = filter (\<lambda>url. url \<noteq> [] \<and> url \<notin> written
                     \<and> \<not> list_ex (\<lambda>blacklist. contains blacklist url) (url_blacklist cfg))
         (if ip_version_priority cfg = ustr ''ipv6''
          then filter is_ipv6 urls @ filter (\<lambda>u. \<not> is_ipv6 u) urls
          else filter (\<lambda>u. \<not> is_ipv6 u) urls @ filter is_ipv6 urls)
   \<and> add_url_suffix url index total_urls
     = takeWhile (\<lambda>c. c \<noteq> dollar) url
       @ (if is_ipv6 url then ustr ''$LR'' @ [0x2022] @ ustr ''IPV6''
          else ustr ''$LR'' @ [0x2022] @ ustr ''IPV4'')
       @ (if total_urls = 1 then [] else [0x300E, 0x7EBF, 0x8DEF] @ py_str index @ [0x300F])
   \<and> fst (sort_and_filter_urls
            \<lparr>source_urls = [], epg_urls = [], url_blacklist = [], ip_version_priority = ustr ''ipv4''\<rparr>
            [ustr ''http://[::1]/a'', ustr ''http://b/c''] {})
     = [ustr ''http://b/c'', ustr ''http://[::1]/a'']
   \<and> f_txt (updateChannelUrlsM3U
              \<lparr>source_urls = [], epg_urls = [], url_blacklist = [], ip_version_priority = ustr ''ipv4''\<rparr>
              now
              [(ustr ''News'', [(ustr ''A'', [ustr ''http://[::1]/a'', ustr ''http://b/c''])])]
              [(ustr ''News'', [ustr ''A''])])
     = [ustr ''News,#genre#'' @ [newline],
        ustr ''A,http://b/c$LR'' @ [0x2022] @ ustr ''IPV4'' @ [0x300E, 0x7EBF, 0x8DEF] @ ustr ''1''
          @ [0x300F, newline],
        ustr ''A,http://[::1]/a$LR'' @ [0x2022] @ ustr ''IPV6'' @ [0x300E, 0x7EBF, 0x8DEF] @ ustr ''2''
          @ [0x300F, newline],
        [newline]]"
proof (intro conjI)
  show "fst (sort_and_filter_urls cfg urls written)
     = filter (\<lambda>url. url \<noteq> [] \<and> url \<notin> written
                     \<and> \<not> list_ex (\<lambda>blacklist. contains blacklist url) (url_blacklist cfg))
         (if ip_version_priority cfg = ustr ''ipv6''
          then filter is_ipv6 urls @ filter (\<lambda>u. \<not> is_ipv6 u) urls
          else filter (\<lambda>u. \<not> is_ipv6 u) urls @ filter is_ipv6 urls)"
    by (simp add: sort_and_filter_urls_def Let_def sort_key_bool)
  show "add_url_suffix url index total_urls
     = takeWhile (\<lambda>c. c \<noteq> dollar) url
       @ (if is_ipv6 url then ustr ''$LR'' @ [0x2022] @ ustr ''IPV6''
          else ustr ''$LR'' @ [0x2022] @ ustr ''IPV4'')
       @ (if total_urls = 1 then [] else [0x300E, 0x7EBF, 0x8DEF] @ py_str index @ [0x300F])"
    by (simp add: add_url_suffix_def Let_def split0_takeWhile lr_ipv6_def lr_ipv4_def line_tag_def
          takeWhile_absent)
  show "fst (sort_and_filter_urls
            \<lparr>source_urls = [], epg_urls = [], url_blacklist = [], ip_version_priority = ustr ''ipv4''\<rparr>
            [ustr ''http://[::1]/a'', ustr ''http://b/c''] {})
     = [ustr ''http://b/c'', ustr ''http://[::1]/a'']"
    by code_simp
  show "f_txt (updateChannelUrlsM3U
              \<lparr>source_urls = [], epg_urls = [], url_blacklist = [], ip_version_priority = ustr ''ipv4''\<rparr>
              now
              [(ustr ''News'', [(ustr ''A'', [ustr ''http://[::1]/a'', ustr ''http://b/c''])])]
              [(ustr ''News'', [ustr ''A''])])
     = [ustr ''News,#genre#'' @ [newline],
        ustr ''A,http://b/c$LR'' @ [0x2022] @ ustr ''IPV4'' @ [0x300E, 0x7EBF, 0x8DEF] @ ustr ''1''
          @ [0x300F, newline],
        ustr ''A,http://[::1]/a$LR'' @ [0x2022] @ ustr ''IPV6'' @ [0x300E, 0x7EBF, 0x8DEF] @ ustr ''2''
          @ [0x300F, newline],
        [newline]]"
    by code_simp
qed

text \<open>
  The theorem under the preference \<^verbatim>\<open>ipv6\<close>, with a blacklisted, an empty and an already
  written candidate, and at a URL that carries two \<^verbatim>\<open>$\<close> and is alone in its channel.
\<close>

theorem rank_and_suffix_witness:
  "fst (sort_and_filter_urls
          \<lparr>source_urls = [], epg_urls = [], url_blacklist = [ustr ''bad''],
             ip_version_priority = ustr ''ipv6''\<rparr>
          [ustr ''http://b/c'', ustr ''http://bad/1'', ustr ''http://[::1]/a'', [], ustr ''http://d/e'']
          {ustr ''http://d/e''})
     = [ustr ''http://[::1]/a'', ustr ''http://b/c'']
   \<and> add_url_suffix (ustr ''http://b/c$old$tag'') 1 1 = ustr ''http://b/c$LR'' @ [0x2022] @ ustr ''IPV4''"
proof -
  let ?cfg = "\<lparr>source_urls = [], epg_urls = [], url_blacklist = [ustr ''bad''],
             ip_version_priority = ustr ''ipv6''\<rparr>"
  let ?urls = "[ustr ''http://b/c'', ustr ''http://bad/1'', ustr ''http://[::1]/a'', [], ustr ''http://d/e'']"
  let ?url = "ustr ''http://b/c$old$tag''"
  have a: "filter (\<lambda>url. url \<noteq> [] \<and> url \<notin> {ustr ''http://d/e''}
                     \<and> \<not> list_ex (\<lambda>blacklist. contains blacklist url) (url_blacklist ?cfg))
         (if ip_version_priority ?cfg = ustr ''ipv6''
          then filter is_ipv6 ?urls @ filter (\<lambda>u. \<not> is_ipv6 u) ?urls
          else filter (\<lambda>u. \<not> is_ipv6 u) ?urls @ filter is_ipv6 ?urls)
        = [ustr ''http://[::1]/a'', ustr ''http://b/c'']"
    by code_simp
  have b: "takeWhile (\<lambda>c. c \<noteq> dollar) ?url
       @ (if is_ipv6 ?url then ustr ''$LR'' @ [0x2022] @ ustr ''IPV6''
          else ustr ''$LR'' @ [0x2022] @ ustr ''IPV4'')
       @ (if (1::int) = 1 then [] else [0x300E, 0x7EBF, 0x8DEF] @ py_str 1 @ [0x300F])
        = ustr ''http://b/c$LR'' @ [0x2022] @ ustr ''IPV4''"
    by code_simp
  show ?thesis
    using rank_and_suffix [of ?cfg ?urls "{ustr ''http://d/e''}" ?url 1 1 "(2026, 11, 3)"]
    by (simp only: a b)
qed

section \<open>Duplicates within one channel\<close>

text \<open>
  What one call of \<^verbatim>\<open>sort_and_filter_urls\<close> does guarantee: every URL it returns is a
  candidate that is not empty, was not in \<^verbatim>\<open>written_urls\<close> before the call and contains no
  blacklisted substring, and the call adds exactly the returned URLs to the set.
\<close>

lemma sort_and_filter_urls_survivors:
  assumes "url \<in> set (fst (sort_and_filter_urls cfg urls written))"
  shows "url \<in> set urls" and "url \<noteq> []" and "url \<notin> written"
    and "\<not> list_ex (\<lambda>blacklist. contains blacklist url) (url_blacklist cfg)"
  using assms by (auto simp: sort_and_filter_urls_def Let_def)

lemma sort_and_filter_urls_written:
  "snd (sort_and_filter_urls cfg urls written)
     = written \<union> set (fst (sort_and_filter_urls cfg urls written))"
  by (simp add: sort_and_filter_urls_def Let_def)

text \<open>
  Claim C2 at a channel whose candidate list holds the same URL twice (two sources that
  list the channel with one URL give such a list, since neither \<^verbatim>\<open>merge_channels\<close> nor
  \<^verbatim>\<open>match_channels\<close> removes duplicates). \<^verbatim>\<open>sort_and_filter_urls\<close> tests every candidate
  against \<^verbatim>\<open>written_urls\<close> as it was before the call and adds the survivors only after the
  whole list is filtered, so both copies survive and the writer emits the URL twice, as
  line 1 and line 2 of the channel.
\<close>

theorem duplicate_url_within_channel:
  "f_txt (updateChannelUrlsM3U
            \<lparr>source_urls = [], epg_urls = [], url_blacklist = [], ip_version_priority = ustr ''ipv4''\<rparr>
            (2026, 11, 3)
            [(ustr ''News'', [(ustr ''A'', [ustr ''http://a/1'', ustr ''http://a/1''])])]
            [(ustr ''News'', [ustr ''A''])])
     = [ustr ''News,#genre#'' @ [newline],
        ustr ''A,http://a/1$LR'' @ [0x2022] @ ustr ''IPV4'' @ [0x300E, 0x7EBF, 0x8DEF] @ ustr ''1''
          @ [0x300F, newline],
        ustr ''A,http://a/1$LR'' @ [0x2022] @ ustr ''IPV4'' @ [0x300E, 0x7EBF, 0x8DEF] @ ustr ''2''
          @ [0x300F, newline],
        [newline]]
   \<and> fst (sort_and_filter_urls
           \<lparr>source_urls = [], epg_urls = [], url_blacklist = [], ip_version_priority = ustr ''ipv4''\<rparr>
           [ustr ''http://a/1'', ustr ''http://a/1''] {})
     = [ustr ''http://a/1'', ustr ''http://a/1'']"
  by code_simp

section \<open>Determinism of the pipeline\<close>

lemma fetch_channels_cong:
  assumes "fetch1 url = fetch2 url"
  shows "fetch_channels py fetch1 url = fetch_channels py fetch2 url"
  unfolding fetch_channels_def assms by (rule refl)

lemma filter_source_urls_cong:
  assumes "\<And>url. url \<in> set (source_urls cfg) \<Longrightarrow> fetch1 url = fetch2 url"
  shows "filter_source_urls py cfg fetch1 template_file
           = filter_source_urls py cfg fetch2 template_file"
proof -
  have "for_each (\<lambda>all_channels url.
                    case fetch_channels py fetch1 url of
                      Inl e \<Rightarrow> Inl e
                    | Inr fetched_channels \<Rightarrow> Inr (merge_channels all_channels fetched_channels))
          [] (source_urls cfg)
      = for_each (\<lambda>all_channels url.
                    case fetch_channels py fetch2 url of
                      Inl e \<Rightarrow> Inl e
                    | Inr fetched_channels \<Rightarrow> Inr (merge_channels all_channels fetched_channels))
          [] (source_urls cfg)"
  proof (rule for_each_cong)
    fix st :: "(pystr, (pystr \<times> pystr) list) odict" and url
    assume "url \<in> set (source_urls cfg)"
    then have "fetch1 url = fetch2 url" by (rule assms)
    then have "fetch_channels py fetch1 url = fetch_channels py fetch2 url"
      by (rule fetch_channels_cong)
    then show "(case fetch_channels py fetch1 url of
                  Inl e \<Rightarrow> Inl e
                | Inr fetched_channels \<Rightarrow> Inr (merge_channels st fetched_channels))
             = (case fetch_channels py fetch2 url of
                  Inl e \<Rightarrow> Inl e
                | Inr fetched_channels \<Rightarrow> Inr (merge_channels st fetched_channels))"
      by (simp only:)
  qed
  then show ?thesis by (simp only: filter_source_urls_def)
qed

lemma updateChannelUrlsM3U_clock:
  "updateChannelUrlsM3U cfg now1 matched template_channels
     = updateChannelUrlsM3U cfg now2 matched template_channels"
  by (simp add: updateChannelUrlsM3U_def Let_def)

text \<open>
  Claim C1. The contents of the two playlist files are a function of the settings, the
  lines of the template and the texts (or failures) the transport gives for the
  configured source URLs, and of nothing else: two runs of one interpreter with the same
  settings and template, whose fetches agree on every configured source, write the same
  two files or end with the same exception, whatever the clock reads in each run and
  whatever the transport would answer for other URLs. The date the source formats from
  the clock reaches neither file.
\<close>

theorem main_deterministic:
  assumes "\<And>url. url \<in> set (source_urls cfg) \<Longrightarrow> fetch1 url = fetch2 url"
  shows "main py cfg fetch1 now1 template_file = main py cfg fetch2 now2 template_file"
proof -
  have "filter_source_urls py cfg fetch1 template_file
          = filter_source_urls py cfg fetch2 template_file"
    using assms by (rule filter_source_urls_cong)
  then show ?thesis
    using updateChannelUrlsM3U_clock [of cfg now1 _ _ now2]
    by (simp add: main_def split: prod.splits sum.splits)
qed

text \<open>
  The theorem for two runs on different days, with transports that agree on the two
  configured sources (one of them failing) and differ elsewhere.
\<close>

theorem main_deterministic_witness:
  "main ascii_tables
        \<lparr>source_urls = [ustr ''s1'', ustr ''s2''], epg_urls = [ustr ''e1''], url_blacklist = [],
          ip_version_priority = ustr ''ipv4''\<rparr>
        (\<lambda>u. if u = ustr ''s1'' then Some (ustr ''News,#genre#'' @ [newline] @ ustr ''A,http://b/c'')
              else None)
        (2026, 11, 3) [ustr ''News,#genre#'', ustr ''A'']
   = main ascii_tables
        \<lparr>source_urls = [ustr ''s1'', ustr ''s2''], epg_urls = [ustr ''e1''], url_blacklist = [],
            ip_version_priority = ustr ''ipv4''\<rparr>
        (\<lambda>u. if u = ustr ''s1'' then Some (ustr ''News,#genre#'' @ [newline] @ ustr ''A,http://b/c'')
              else if u = ustr ''s2'' then None else Some (ustr ''other''))
        (1999, 12, 31) [ustr ''News,#genre#'', ustr ''A'']"
proof -
  let ?cfg = "\<lparr>source_urls = [ustr ''s1'', ustr ''s2''], epg_urls = [ustr ''e1''], url_blacklist = [],
          ip_version_priority = ustr ''ipv4''\<rparr>"
  let ?f1 = "\<lambda>u. if u = ustr ''s1'' then Some (ustr ''News,#genre#'' @ [newline] @ ustr ''A,http://b/c'')
              else None"
  let ?f2 = "\<lambda>u. if u = ustr ''s1'' then Some (ustr ''News,#genre#'' @ [newline] @ ustr ''A,http://b/c'')
              else if u = ustr ''s2'' then None else Some (ustr ''other'')"
  have "\<And>url. url \<in> set (source_urls ?cfg) \<Longrightarrow> ?f1 url = ?f2 url" by auto
  then show ?thesis by (rule main_deterministic)
qed

section \<open>The delimited file\<close>

text \<open>
  What the writer appends to the delimited file: for a category its header, then one
  write per ranked URL of each of its channels. The lemmas carry a property \<open>P\<close> of the
  entry writes through the three loops.
\<close>

lemma f_txt_write_to_files:
  "f_txt (write_to_files st c n i u) = f_txt st @ [n @ ustr '','' @ u @ [newline]]"
  by (simp add: write_to_files_def Let_def)

lemma f_txt_write_urls:
  "f_txt (foldl (\<lambda>st (index, url). write_to_files st c n index (add_url_suffix url index t)) st ps)
     = f_txt st @ map (\<lambda>(index, url). n @ ustr '','' @ add_url_suffix url index t @ [newline]) ps"
proof (induction ps arbitrary: st)
  case Nil
  show ?case by simp
next
  case (Cons p ps)
  obtain i u where p: "p = (i, u)" by (cases p)
  show ?case by (simp add: Cons.IH p f_txt_write_to_files)
qed

lemma sort_and_filter_urls_subset: "set (fst (sort_and_filter_urls cfg urls written)) \<subseteq> set urls"
  by (auto simp: sort_and_filter_urls_def Let_def)

lemma f_txt_write_channel:
  assumes "\<And>urls url i t. map_of inner n = Some urls \<Longrightarrow> url \<in> set urls
             \<Longrightarrow> P (n @ ustr '','' @ add_url_suffix url i t @ [newline])"
  shows "\<exists>es. f_txt (write_channel cfg c inner st n) = f_txt st @ es \<and> (\<forall>w \<in> set es. P w)"
proof (cases "map_of inner n")
  case None
  then have "f_txt (write_channel cfg c inner st n) = f_txt st @ []"
    by (simp add: write_channel_def)
  then show ?thesis by (intro exI [of _ "[]"]) simp
next
  case (Some urls)
  obtain sorted_urls written where sf: "sort_and_filter_urls cfg urls (written_urls st) = (sorted_urls, written)"
    by (cases "sort_and_filter_urls cfg urls (written_urls st)")
  have sub: "set sorted_urls \<subseteq> set urls"
    using sort_and_filter_urls_subset [of cfg urls "written_urls st"] sf by simp
  let ?es = "map (\<lambda>(index, url). n @ ustr '','' @ add_url_suffix url index (int (length sorted_urls)) @ [newline])
               (enumerate1 sorted_urls)"
  have "f_txt (write_channel cfg c inner st n) = f_txt st @ ?es"
    by (simp add: write_channel_def Some sf f_txt_write_urls)
  moreover have "\<forall>w \<in> set ?es. P w"
  proof
    fix w assume "w \<in> set ?es"
    then obtain i u where iu: "(i, u) \<in> set (enumerate1 sorted_urls)"
      and w: "w = n @ ustr '','' @ add_url_suffix u i (int (length sorted_urls)) @ [newline]"
      by auto
    have "u \<in> set sorted_urls" using iu by (auto simp: enumerate1_def dest: set_zip_rightD)
    then have "u \<in> set urls" using sub by auto
    then show "P w" unfolding w using Some by (rule assms [rotated])
  qed
  ultimately show ?thesis by blast
qed

lemma f_txt_write_channels:
  assumes "\<And>n urls url i t. n \<in> set l \<Longrightarrow> map_of inner n = Some urls \<Longrightarrow> url \<in> set urls
             \<Longrightarrow> P (n @ ustr '','' @ add_url_suffix url i t @ [newline])"
  shows "\<exists>es. f_txt (foldl (write_channel cfg c inner) st l) = f_txt st @ es \<and> (\<forall>w \<in> set es. P w)"
  using assms
proof (induction l arbitrary: st)
  case Nil
  show ?case by (intro exI [of _ "[]"]) simp
next
  case (Cons n l)
  have "\<And>urls url i t. map_of inner n = Some urls \<Longrightarrow> url \<in> set urls
             \<Longrightarrow> P (n @ ustr '','' @ add_url_suffix url i t @ [newline])"
    using Cons.prems by simp
  then obtain es1 where 1: "f_txt (write_channel cfg c inner st n) = f_txt st @ es1" "\<forall>w \<in> set es1. P w"
    using f_txt_write_channel [of inner n P cfg c st] by blast
  have "\<And>m urls url i t. m \<in> set l \<Longrightarrow> map_of inner m = Some urls \<Longrightarrow> url \<in> set urls
             \<Longrightarrow> P (m @ ustr '','' @ add_url_suffix url i t @ [newline])"
    using Cons.prems by simp
  then obtain es2 where 2: "f_txt (foldl (write_channel cfg c inner) (write_channel cfg c inner st n) l)
                              = f_txt (write_channel cfg c inner st n) @ es2" "\<forall>w \<in> set es2. P w"
    using Cons.IH [of "write_channel cfg c inner st n"] by blast
  have "f_txt (foldl (write_channel cfg c inner) st (n # l)) = f_txt st @ (es1 @ es2)"
    using 1(1) 2(1) by simp
  moreover have "\<forall>w \<in> set (es1 @ es2). P w" using 1(2) 2(2) by auto
  ultimately show ?case by blast
qed

lemma f_txt_write_category:
  assumes "\<And>inner n urls url i t. map_of matched c = Some inner \<Longrightarrow> n \<in> set l
             \<Longrightarrow> map_of inner n = Some urls \<Longrightarrow> url \<in> set urls
             \<Longrightarrow> P (n @ ustr '','' @ add_url_suffix url i t @ [newline])"
  shows "\<exists>es. f_txt (write_category cfg matched st (c, l))
                = f_txt st @ (c @ ustr '',#genre#'' @ [newline]) # es \<and> (\<forall>w \<in> set es. P w)"
proof (cases "map_of matched c")
  case None
  then have "f_txt (write_category cfg matched st (c, l)) = f_txt st @ (c @ ustr '',#genre#'' @ [newline]) # []"
    by (simp add: write_category_def Let_def)
  then show ?thesis by (intro exI [of _ "[]"]) simp
next
  case (Some inner)
  let ?st = "st\<lparr>f_txt := f_txt st @ [c @ ustr '',#genre#'' @ [newline]]\<rparr>"
  have "\<And>n urls url i t. n \<in> set l \<Longrightarrow> map_of inner n = Some urls \<Longrightarrow> url \<in> set urls
             \<Longrightarrow> P (n @ ustr '','' @ add_url_suffix url i t @ [newline])"
    using assms [OF Some] by simp
  then obtain es where es: "f_txt (foldl (write_channel cfg c inner) ?st l) = f_txt ?st @ es"
      "\<forall>w \<in> set es. P w"
    using f_txt_write_channels [of l inner P cfg c ?st] by blast
  have "f_txt (write_category cfg matched st (c, l)) = f_txt (foldl (write_channel cfg c inner) ?st l)"
    by (simp add: write_category_def Let_def Some)
  then have "f_txt (write_category cfg matched st (c, l)) = f_txt st @ (c @ ustr '',#genre#'' @ [newline]) # es"
    using es(1) by simp
  then show ?thesis using es(2) by blast
qed

lemma genre_marker_hash: "ustr '',#genre#'' = ustr '',#genre'' @ [hash]"
  by (simp add: ustr_def)

lemma add_url_suffix_last:
  "add_url_suffix url i t \<noteq> [] \<and> last (add_url_suffix url i t) \<noteq> hash"
  by (simp add: add_url_suffix_def Let_def lr_ipv6_def lr_ipv4_def line_tag_def ustr_def)

lemma endswith_append: "endswith (c @ p) p"
  by (simp add: endswith_def startswith_append)

lemma endswith_snoc: "endswith (b @ [x]) (p @ [x]) = endswith b p"
  by (simp add: endswith_def startswith_def)

lemma endswith_last:
  assumes "s \<noteq> []" "last s \<noteq> h"
  shows "\<not> endswith (a @ s) (p @ [h])"
proof -
  obtain xs d where s: "s = xs @ [d]" using assms(1) by (metis append_butlast_last_id)
  then have "d \<noteq> h" using assms(2) by simp
  then show ?thesis by (simp add: s endswith_def startswith_def)
qed

lemma entry_not_header:
  "\<not> endswith (n @ ustr '','' @ add_url_suffix url i t @ [newline]) (ustr '',#genre#'' @ [newline])"
proof -
  have a: "\<not> endswith ((n @ ustr '','') @ add_url_suffix url i t) (ustr '',#genre'' @ [hash])"
    using add_url_suffix_last [of url i t] by (intro endswith_last) auto
  have b: "endswith (((n @ ustr '','') @ add_url_suffix url i t) @ [newline])
               ((ustr '',#genre'' @ [hash]) @ [newline])
           = endswith ((n @ ustr '','') @ add_url_suffix url i t) (ustr '',#genre'' @ [hash])"
    by (rule endswith_snoc)
  show ?thesis using a b by (simp add: genre_marker_hash)
qed

lemma header_is_header:
  "endswith (c @ ustr '',#genre#'' @ [newline]) (ustr '',#genre#'' @ [newline])"
  by (rule endswith_append)

lemma filter_headers_foldl:
  "filter (\<lambda>w. endswith w (ustr '',#genre#'' @ [newline]))
     (f_txt (foldl (write_category cfg matched) st tpl))
   = filter (\<lambda>w. endswith w (ustr '',#genre#'' @ [newline])) (f_txt st)
     @ map (\<lambda>(c, l). c @ ustr '',#genre#'' @ [newline]) tpl"
proof (induction tpl arbitrary: st)
  case Nil
  show ?case by simp
next
  case (Cons e tpl)
  obtain c l where e: "e = (c, l)" by (cases e)
  let ?Q = "\<lambda>w. endswith w (ustr '',#genre#'' @ [newline])"
  obtain es where es: "f_txt (write_category cfg matched st (c, l))
                         = f_txt st @ (c @ ustr '',#genre#'' @ [newline]) # es"
      "\<forall>w \<in> set es. \<not> ?Q w"
    using f_txt_write_category [of matched c l "\<lambda>w. \<not> ?Q w" cfg st] entry_not_header by blast
  have "filter ?Q es = []" using es(2) by (simp add: filter_empty_conv)
  then have "filter ?Q (f_txt (write_category cfg matched st (c, l)))
               = filter ?Q (f_txt st) @ [c @ ustr '',#genre#'' @ [newline]]"
    using header_is_header [of c] by (simp add: es(1))
  then show ?case using Cons.IH [of "write_category cfg matched st e"] by (simp add: e)
qed

lemma all_writes_foldl:
  assumes "\<And>c l. (c, l) \<in> set tpl \<Longrightarrow> R (c @ ustr '',#genre#'' @ [newline])"
    and "\<And>c l inner n urls url i t. (c, l) \<in> set tpl \<Longrightarrow> map_of matched c = Some inner
           \<Longrightarrow> n \<in> set l \<Longrightarrow> map_of inner n = Some urls \<Longrightarrow> url \<in> set urls
           \<Longrightarrow> R (n @ ustr '','' @ add_url_suffix url i t @ [newline])"
    and "\<forall>w \<in> set (f_txt st). R w"
  shows "\<forall>w \<in> set (f_txt (foldl (write_category cfg matched) st tpl)). R w"
  using assms
proof (induction tpl arbitrary: st)
  case Nil
  then show ?case by simp
next
  case (Cons e tpl)
  obtain c l where e: "e = (c, l)" by (cases e)
  have "\<And>inner n urls url i t. map_of matched c = Some inner \<Longrightarrow> n \<in> set l
           \<Longrightarrow> map_of inner n = Some urls \<Longrightarrow> url \<in> set urls
           \<Longrightarrow> R (n @ ustr '','' @ add_url_suffix url i t @ [newline])"
    using Cons.prems(2) [of c l] e by simp
  then obtain es where es: "f_txt (write_category cfg matched st (c, l))
                         = f_txt st @ (c @ ustr '',#genre#'' @ [newline]) # es"
      "\<forall>w \<in> set es. R w"
    using f_txt_write_category [of matched c l R cfg st] by blast
  have "R (c @ ustr '',#genre#'' @ [newline])" using Cons.prems(1) [of c l] e by simp
  then have st': "\<forall>w \<in> set (f_txt (write_category cfg matched st e)). R w"
    using es Cons.prems(3) by (auto simp: e)
  have "\<forall>w \<in> set (f_txt (foldl (write_category cfg matched) (write_category cfg matched st e) tpl)). R w"
  proof (rule Cons.IH)
    show "\<And>c l. (c, l) \<in> set tpl \<Longrightarrow> R (c @ ustr '',#genre#'' @ [newline])"
      using Cons.prems(1) by auto
    show "\<And>c l inner n urls url i t. (c, l) \<in> set tpl \<Longrightarrow> map_of matched c = Some inner
           \<Longrightarrow> n \<in> set l \<Longrightarrow> map_of inner n = Some urls \<Longrightarrow> url \<in> set urls
           \<Longrightarrow> R (n @ ustr '','' @ add_url_suffix url i t @ [newline])"
      using Cons.prems(2) by (meson list.set_intros(2))
    show "\<forall>w \<in> set (f_txt (write_category cfg matched st e)). R w" by (rule st')
  qed
  then show ?case by simp
qed

lemma split_on_line:
  "newline \<notin> set b \<Longrightarrow> split_on newline (b @ newline # rest) = b # split_on newline rest"
proof (induction b)
  case Nil
  show ?case by simp
next
  case (Cons x b)
  then show ?case by simp
qed

lemma split_on_lines:
  assumes "\<forall>w \<in> set ws. \<exists>b. w = b @ [newline] \<and> newline \<notin> set b"
  shows "split_on newline (concat ws) = map butlast ws @ [[]]"
  using assms
proof (induction ws)
  case Nil
  show ?case by simp
next
  case (Cons w ws)
  obtain b where b: "w = b @ [newline]" "newline \<notin> set b" using Cons.prems by auto
  have "split_on newline (concat ws) = map butlast ws @ [[]]" using Cons by simp
  then show ?case using split_on_line [OF b(2), of "concat ws"] by (simp add: b(1))
qed

lemma py_str_chars: "c \<in> set (py_str n) \<Longrightarrow> c = 0x2D \<or> (0x30 \<le> c \<and> c \<le> 0x39)"
proof (induction n arbitrary: c rule: py_str.induct)
  case (1 n)
  show ?case
  proof (cases "n < 0")
    case True
    then have "py_str n = 0x2D # py_str (- n)" by (subst py_str.simps) simp
    then show ?thesis using 1(1) [OF True] 1(3) by auto
  next
    case False
    show ?thesis
    proof (cases "n < 10")
      case True
      then have "py_str n = [0x30 + n]" using False by (subst py_str.simps) simp
      then show ?thesis using 1(3) False True by auto
    next
      case ge: False
      then have "py_str n = py_str (n div 10) @ [0x30 + n mod 10]"
        using False by (subst py_str.simps) simp
      moreover have "0 \<le> n mod 10 \<and> n mod 10 < 10" by simp
      ultimately show ?thesis using 1(2) [OF False ge] 1(3) by auto
    qed
  qed
qed

lemma add_url_suffix_no_newline:
  assumes "newline \<notin> set url"
  shows "newline \<notin> set (add_url_suffix url i t)"
proof -
  have "newline \<notin> set (py_str i)" using py_str_chars [of newline i] by auto
  moreover have "newline \<notin> set (takeWhile (\<lambda>c. c \<noteq> dollar) url)"
    using assms by (auto dest: set_takeWhileD)
  ultimately show ?thesis
    using assms
    by (simp add: add_url_suffix_def Let_def split0_takeWhile lr_ipv6_def lr_ipv4_def line_tag_def
          ustr_def)
qed

lemma f_txt_updateChannelUrlsM3U:
  "f_txt (updateChannelUrlsM3U cfg now matched tpl)
     = f_txt (foldl (write_category cfg matched)
                \<lparr>written_urls = {},
                   f_m3u = [ustr ''#EXTM3U x-tvg-url=''
                              @ join (ustr '','') (map (\<lambda>epg_url. [dquote] @ epg_url @ [dquote]) (epg_urls cfg))
                              @ [newline]],
                   f_txt = []\<rparr> tpl)
       @ [[newline]]"
  by (simp add: updateChannelUrlsM3U_def Let_def)

lemma list_allD: "list_all P xs \<Longrightarrow> x \<in> set xs \<Longrightarrow> P x"
  by (simp add: list_all_iff)

lemma last_write_not_header: "\<not> endswith [newline] (ustr '',#genre#'' @ [newline])"
  by (simp add: endswith_def startswith_def ustr_def)

lemma empty_line_not_header: "\<not> endswith [] (ustr '',#genre#'')"
  by (simp add: endswith_def startswith_def ustr_def)

lemma header_writes:
  "filter (\<lambda>w. endswith w (ustr '',#genre#'' @ [newline]))
     (f_txt (updateChannelUrlsM3U cfg now matched tpl))
   = map (\<lambda>(category, channel_list). category @ ustr '',#genre#'' @ [newline]) tpl"
  by (simp add: f_txt_updateChannelUrlsM3U filter_headers_foldl last_write_not_header)

lemma header_lines:
  assumes tpl: "list_all (\<lambda>(category, channel_list).
                   newline \<notin> set category \<and> list_all (\<lambda>name. newline \<notin> set name) channel_list) tpl"
    and urls: "list_all (\<lambda>(category, inner).
                   list_all (\<lambda>(name, urls). list_all (\<lambda>url. newline \<notin> set url) urls) inner) matched"
  shows "filter (\<lambda>line. endswith line (ustr '',#genre#''))
           (split_on newline (file_content (f_txt (updateChannelUrlsM3U cfg now matched tpl))))
         = map (\<lambda>(category, channel_list). category @ ustr '',#genre#'') tpl"
proof -
  let ?R = "\<lambda>w. \<exists>b. w = b @ [newline] \<and> newline \<notin> set b"
  let ?Q = "\<lambda>w. endswith w (ustr '',#genre#'' @ [newline])"
  let ?Q' = "\<lambda>line. endswith line (ustr '',#genre#'')"
  let ?st = "\<lparr>written_urls = {},
              f_m3u = [ustr ''#EXTM3U x-tvg-url=''
                         @ join (ustr '','') (map (\<lambda>epg_url. [dquote] @ epg_url @ [dquote]) (epg_urls cfg))
                         @ [newline]],
              f_txt = []\<rparr>"
  let ?ws = "f_txt (updateChannelUrlsM3U cfg now matched tpl)"
  have marker: "newline \<notin> set (ustr '',#genre#'')" "newline \<notin> set (ustr '','')"
    by (simp_all add: ustr_def)
  have hdr: "\<And>c l. (c, l) \<in> set tpl \<Longrightarrow> ?R (c @ ustr '',#genre#'' @ [newline])"
  proof -
    fix c l assume "(c, l) \<in> set tpl"
    then have "newline \<notin> set c" using tpl by (auto simp: list_all_iff)
    then have "newline \<notin> set (c @ ustr '',#genre#'')" using marker by simp
    then show "?R (c @ ustr '',#genre#'' @ [newline])"
      by (intro exI [of _ "c @ ustr '',#genre#''"]) simp
  qed
  have ent: "\<And>c l inner n urls' url i t. (c, l) \<in> set tpl \<Longrightarrow> map_of matched c = Some inner
           \<Longrightarrow> n \<in> set l \<Longrightarrow> map_of inner n = Some urls' \<Longrightarrow> url \<in> set urls'
           \<Longrightarrow> ?R (n @ ustr '','' @ add_url_suffix url i t @ [newline])"
  proof -
    fix c l inner n urls' url i t
    assume a: "(c, l) \<in> set tpl" "map_of matched c = Some inner" "n \<in> set l"
              "map_of inner n = Some urls'" "url \<in> set urls'"
    have nn: "newline \<notin> set n" using a(1,3) tpl by (auto simp: list_all_iff)
    have "(c, inner) \<in> set matched" using a(2) by (rule map_of_SomeD)
    with urls
    have "case (c, inner) of (category, inner) \<Rightarrow>
            list_all (\<lambda>(name, urls). list_all (\<lambda>url. newline \<notin> set url) urls) inner"
      by (rule list_allD)
    then have i: "list_all (\<lambda>(name, urls). list_all (\<lambda>url. newline \<notin> set url) urls) inner"
      by simp
    have "(n, urls') \<in> set inner" using a(4) by (rule map_of_SomeD)
    with i have "case (n, urls') of (name, urls) \<Rightarrow> list_all (\<lambda>url. newline \<notin> set url) urls"
      by (rule list_allD)
    then have "list_all (\<lambda>url. newline \<notin> set url) urls'" by simp
    then have "newline \<notin> set url" using a(5) by (rule list_allD)
    note nn this
    then have "newline \<notin> set (n @ ustr '','' @ add_url_suffix url i t)"
      using marker by (simp add: add_url_suffix_no_newline)
    then show "?R (n @ ustr '','' @ add_url_suffix url i t @ [newline])"
      by (intro exI [of _ "n @ ustr '','' @ add_url_suffix url i t"]) simp
  qed
  have "\<forall>w \<in> set (f_txt ?st). ?R w" by simp
  then have "\<forall>w \<in> set (f_txt (foldl (write_category cfg matched) ?st tpl)). ?R w"
    using hdr ent by (intro all_writes_foldl [where R = ?R]) blast+
  then have all: "\<forall>w \<in> set ?ws. ?R w"
    by (simp add: f_txt_updateChannelUrlsM3U)
  have lines: "split_on newline (concat ?ws) = map butlast ?ws @ [[]]"
    using all by (rule split_on_lines)
  have same: "\<And>w. w \<in> set ?ws \<Longrightarrow> ?Q' (butlast w) = ?Q w"
  proof -
    fix w assume "w \<in> set ?ws"
    then obtain b where "w = b @ [newline]" using all by blast
    then show "?Q' (butlast w) = ?Q w" by (simp add: endswith_snoc)
  qed
  have "filter ?Q' (map butlast ?ws) = map butlast (filter (\<lambda>w. ?Q' (butlast w)) ?ws)"
    by (simp add: filter_map comp_def)
  also have "filter (\<lambda>w. ?Q' (butlast w)) ?ws = filter ?Q ?ws"
    using same by (intro filter_cong refl)
  also have "filter ?Q ?ws = map (\<lambda>(category, channel_list). category @ ustr '',#genre#'' @ [newline]) tpl"
    by (rule header_writes)
  also have "map butlast (map (\<lambda>(category, channel_list). category @ ustr '',#genre#'' @ [newline]) tpl)
               = map (\<lambda>(category, channel_list). category @ ustr '',#genre#'') tpl"
    by (simp add: case_prod_beta butlast_append)
  finally have "filter ?Q' (map butlast ?ws)
                  = map (\<lambda>(category, channel_list). category @ ustr '',#genre#'') tpl" .
  then show ?thesis
    by (simp add: file_content_def lines empty_line_not_header)
qed

text \<open>
  Claim C8. For every template and every mapping of matched channels, the writes to the
  delimited file that end in \<^verbatim>\<open>,#genre#\<close> and a newline are exactly the headers of the
  template's categories, one per entry of the template and in its order, whatever the
  mapping holds and in whatever order; no entry write is one of them. Where the names
  and URLs hold no newline (as those read from a template file and from sources split at
  newlines do), each write is one line of the file, so the lines of the file that end in
  \<^verbatim>\<open>,#genre#\<close> are the headers, in template order. The last conjunct is a run with no
  matched channel at all: both headers are written.
\<close>

theorem category_headers:
  "filter (\<lambda>w. endswith w (ustr '',#genre#'' @ [newline]))
     (f_txt (updateChannelUrlsM3U cfg now matched template_channels))
     = map (\<lambda>(category, channel_list). category @ ustr '',#genre#'' @ [newline]) template_channels
   \<and> (list_all (\<lambda>(category, channel_list).
                  newline \<notin> set category \<and> list_all (\<lambda>name. newline \<notin> set name) channel_list)
         template_channels
       \<and> list_all (\<lambda>(category, inner).
                  list_all (\<lambda>(name, urls). list_all (\<lambda>url. newline \<notin> set url) urls) inner) matched
       \<longrightarrow> filter (\<lambda>line. endswith line (ustr '',#genre#''))
             (split_on newline
                (file_content (f_txt (updateChannelUrlsM3U cfg now matched template_channels))))
           = map (\<lambda>(category, channel_list). category @ ustr '',#genre#'') template_channels)
   \<and> f_txt (updateChannelUrlsM3U
              \<lparr>source_urls = [], epg_urls = [], url_blacklist = [], ip_version_priority = ustr ''ipv4''\<rparr>
              (2026, 11, 3) [] [(ustr ''News'', [ustr ''A'']), (ustr ''Sports'', [])])
     = [ustr ''News,#genre#'' @ [newline], ustr ''Sports,#genre#'' @ [newline], [newline]]"
proof (intro conjI impI)
  show "filter (\<lambda>w. endswith w (ustr '',#genre#'' @ [newline]))
     (f_txt (updateChannelUrlsM3U cfg now matched template_channels))
     = map (\<lambda>(category, channel_list). category @ ustr '',#genre#'' @ [newline]) template_channels"
    by (rule header_writes)
next
  assume "list_all (\<lambda>(category, channel_list).
                  newline \<notin> set category \<and> list_all (\<lambda>name. newline \<notin> set name) channel_list)
         template_channels
       \<and> list_all (\<lambda>(category, inner).
                  list_all (\<lambda>(name, urls). list_all (\<lambda>url. newline \<notin> set url) urls) inner) matched"
  then show "filter (\<lambda>line. endswith line (ustr '',#genre#''))
             (split_on newline
                (file_content (f_txt (updateChannelUrlsM3U cfg now matched template_channels))))
           = map (\<lambda>(category, channel_list). category @ ustr '',#genre#'') template_channels"
    by (intro header_lines) simp_all
next
  show "f_txt (updateChannelUrlsM3U
              \<lparr>source_urls = [], epg_urls = [], url_blacklist = [], ip_version_priority = ustr ''ipv4''\<rparr>
              (2026, 11, 3) [] [(ustr ''News'', [ustr ''A'']), (ustr ''Sports'', [])])
     = [ustr ''News,#genre#'' @ [newline], ustr ''Sports,#genre#'' @ [newline], [newline]]"
    by code_simp
qed

text \<open>
  The theorem at a template of three categories, the second without any match, and a
  mapping that lists the categories in another order.
\<close>

theorem category_headers_witness:
  "filter (\<lambda>line. endswith line (ustr '',#genre#''))
     (split_on newline
        (file_content
           (f_txt (updateChannelUrlsM3U
                     \<lparr>source_urls = [], epg_urls = [], url_blacklist = [],
                        ip_version_priority = ustr ''ipv4''\<rparr>
                     (2026, 11, 3)
                     [(ustr ''Sports'', [(ustr ''B'', [ustr ''http://b/1''])]),
                      (ustr ''News'', [(ustr ''A'', [ustr ''http://a/1'', ustr ''http://a/2''])])]
                     [(ustr ''News'', [ustr ''A'']), (ustr ''Empty'', [ustr ''C'']),
                      (ustr ''Sports'', [ustr ''B''])]))))
     = [ustr ''News,#genre#'', ustr ''Empty,#genre#'', ustr ''Sports,#genre#'']"
proof -
  let ?cfg = "\<lparr>source_urls = [], epg_urls = [], url_blacklist = [],
                ip_version_priority = ustr ''ipv4''\<rparr>"
  let ?m = "[(ustr ''Sports'', [(ustr ''B'', [ustr ''http://b/1''])]),
            (ustr ''News'', [(ustr ''A'', [ustr ''http://a/1'', ustr ''http://a/2''])])]"
  let ?t = "[(ustr ''News'', [ustr ''A'']), (ustr ''Empty'', [ustr ''C'']), (ustr ''Sports'', [ustr ''B''])]"
  have 1: "list_all (\<lambda>(category, channel_list).
                  newline \<notin> set category \<and> list_all (\<lambda>name. newline \<notin> set name) channel_list) ?t"
    by code_simp
  have 2: "list_all (\<lambda>(category, inner).
                  list_all (\<lambda>(name, urls). list_all (\<lambda>url. newline \<notin> set url) urls) inner) ?m"
    by code_simp
  have 3: "map (\<lambda>(category, channel_list). category @ ustr '',#genre#'') ?t
             = [ustr ''News,#genre#'', ustr ''Empty,#genre#'', ustr ''Sports,#genre#'']"
    by code_simp
  show ?thesis
    using category_headers [of ?cfg "(2026, 11, 3)" ?m ?t] 1 2 by (simp only: 3)
qed

section \<open>Branches the parsers never reach\<close>

text \<open>
  In the source, \<^verbatim>\<open>channels[current_category].append\<close> raises on a missing key and the
  test \<^verbatim>\<open>current_category and channel_name\<close> raises on an unbound \<^verbatim>\<open>channel_name\<close>. Neither
  happens: in every state a parser reaches from its start, the current category is a key
  of the dictionary (\<open>parse_m3u_category_present\<close>, \<open>parse_txt_category_present\<close> and,
  for the template, the last lemma here), and in the extended parser a name is bound
  whenever a category is.
\<close>

lemma parse_m3u_step_name_bound:
  assumes "current_category st \<noteq> None \<longrightarrow> channel_name st \<noteq> None"
    and "parse_m3u_step py st raw = Inr st'"
  shows "current_category st' \<noteq> None \<longrightarrow> channel_name st' \<noteq> None"
  using assms unfolding parse_m3u_step_def Let_def
  by (auto split: option.splits prod.splits sum.splits if_splits)

lemma parse_m3u_name_bound:
  assumes "for_each (parse_m3u_step py) init_state lines = Inr st" "current_category st = Some c"
  shows "channel_name st \<noteq> None"
proof -
  let ?P = "\<lambda>st. current_category st \<noteq> None \<longrightarrow> channel_name st \<noteq> None"
  have step: "\<And>st x st'. ?P st \<Longrightarrow> parse_m3u_step py st x = Inr st' \<Longrightarrow> ?P st'"
    by (rule parse_m3u_step_name_bound)
  have init: "?P init_state" by (simp add: init_state_def)
  have "?P st"
    by (rule for_each_invariant [where P = ?P and body = "parse_m3u_step py", OF step init assms(1)])
  then show ?thesis using assms(2) by simp
qed

lemma parse_template_step_present:
  assumes "\<forall>c. snd st = Some c \<longrightarrow> c \<in> set (map fst (fst st))"
  shows "\<forall>c. snd (parse_template_step st raw) = Some c
           \<longrightarrow> c \<in> set (map fst (fst (parse_template_step st raw)))"
proof (cases "strip raw \<noteq> [] \<and> \<not> startswith (strip raw) (ustr ''#'')
              \<and> contains (ustr ''#genre#'') (strip raw)")
  case True
  then have "parse_template_step st raw
               = (od_set (strip (split0 comma (strip raw))) [] (fst st),
                  Some (strip (split0 comma (strip raw))))"
    by (simp add: parse_template_step_def Let_def)
  then show ?thesis by (simp add: od_set_key_mem)
next
  case False
  then have "snd (parse_template_step st raw) = snd st
        \<and> map fst (fst (parse_template_step st raw)) = map fst (fst st)"
    by (auto simp: parse_template_step_def Let_def keys_od_append split: option.splits)
  then show ?thesis using assms by (simp only:)
qed

lemma foldl_parse_template_present:
  "\<forall>c. snd st = Some c \<longrightarrow> c \<in> set (map fst (fst st)) \<Longrightarrow>
   \<forall>c. snd (foldl parse_template_step st file_lines) = Some c
         \<longrightarrow> c \<in> set (map fst (fst (foldl parse_template_step st file_lines)))"
proof (induction file_lines arbitrary: st)
  case Nil
  then show ?case by simp
next
  case (Cons l ls)
  have "\<forall>c. snd (parse_template_step st l) = Some c
           \<longrightarrow> c \<in> set (map fst (fst (parse_template_step st l)))"
    using Cons.prems by (rule parse_template_step_present)
  then show ?case using Cons.IH [of "parse_template_step st l"] by simp
qed

lemma parse_template_category_present:
  "snd (foldl parse_template_step ([], None) file_lines) = Some c
     \<Longrightarrow> od_contains c (fst (foldl parse_template_step ([], None) file_lines))"
  using foldl_parse_template_present [of "([], None)" file_lines] by (simp add: od_contains_def)

end
